theory Spec2Isabelle
  imports Complex_Main
begin

section \<open>Characters and strings\<close>

text \<open>
  The program works on Python \<open>str\<close> values. A text is modelled as a \<open>string\<close> whose
  characters are read as the code points U+0000 to U+00FF; this range holds every character
  of the program's own tables (\<open>banco de bogot\'a\<close>, \<open>ita\'u\<close>, \<open>dep\'osito\<close>).
  The character classes below are Python's classes restricted to that range.
\<close>

definition code :: "char \<Rightarrow> nat" where
  "code c = of_char c"

definition is_digit :: "char \<Rightarrow> bool" where
  \<comment> \<open>\<open>\d\<close>\<close>
  "is_digit c = (48 \<le> code c \<and> code c \<le> 57)"

definition is_upper_az :: "char \<Rightarrow> bool" where
  \<comment> \<open>\<open>[A-Z]\<close>\<close>
  "is_upper_az c = (65 \<le> code c \<and> code c \<le> 90)"

definition is_lower_az :: "char \<Rightarrow> bool" where
  \<comment> \<open>\<open>[a-z]\<close>\<close>
  "is_lower_az c = (97 \<le> code c \<and> code c \<le> 122)"

definition is_space :: "char \<Rightarrow> bool" where
  \<comment> \<open>\<open>\s\<close> and \<open>str.isspace\<close>\<close>
  "is_space c = ((9 \<le> code c \<and> code c \<le> 13) \<or> (28 \<le> code c \<and> code c \<le> 32)
                 \<or> code c = 133 \<or> code c = 160)"

definition is_word :: "char \<Rightarrow> bool" where
  \<comment> \<open>\<open>\w\<close>: alphanumeric characters and the underscore\<close>
  "is_word c = (is_digit c \<or> is_upper_az c \<or> is_lower_az c \<or> code c = 95
                \<or> code c \<in> {170, 178, 179, 181, 185, 186, 188, 189, 190}
                \<or> (192 \<le> code c \<and> code c \<le> 214) \<or> (216 \<le> code c \<and> code c \<le> 246)
                \<or> 248 \<le> code c)"

definition py_lower_char :: "char \<Rightarrow> char" where
  "py_lower_char c =
     (if is_upper_az c \<or> (192 \<le> code c \<and> code c \<le> 222 \<and> code c \<noteq> 215)
      then char_of (code c + 32) else c)"

definition py_upper_char :: "char \<Rightarrow> char" where
  \<comment> \<open>characters whose upper case lies beyond U+00FF are left as they are: no class of the
      program contains their upper case\<close>
  "py_upper_char c =
     (if is_lower_az c \<or> (224 \<le> code c \<and> code c \<le> 254 \<and> code c \<noteq> 247)
      then char_of (code c - 32) else c)"

definition py_lower :: "string \<Rightarrow> string" where
  \<comment> \<open>\<open>str.lower\<close>\<close>
  "py_lower s = map py_lower_char s"

fun starts_with :: "string \<Rightarrow> string \<Rightarrow> bool" where
  \<comment> \<open>\<open>starts_with x s\<close>: \<open>s.startswith(x)\<close>\<close>
  "starts_with [] s = True"
| "starts_with (x # xs) [] = False"
| "starts_with (x # xs) (c # cs) = (x = c \<and> starts_with xs cs)"

fun py_in :: "string \<Rightarrow> string \<Rightarrow> bool" where
  \<comment> \<open>\<open>py_in x s\<close>: the substring test \<open>x in s\<close>\<close>
  "py_in x [] = (x = [])"
| "py_in x (c # cs) = (starts_with x (c # cs) \<or> py_in x cs)"

definition py_replace :: "char \<Rightarrow> string \<Rightarrow> string \<Rightarrow> string" where
  \<comment> \<open>\<open>py_replace c r s\<close>: \<open>s.replace(c, r)\<close> for a one-character \<open>c\<close>\<close>
  "py_replace c r s = concat (map (\<lambda>x. if x = c then r else [x]) s)"

definition py_count :: "char \<Rightarrow> string \<Rightarrow> nat" where
  "py_count c s = length (filter (\<lambda>x. x = c) s)"

definition py_split :: "char \<Rightarrow> string \<Rightarrow> string list" where
  \<comment> \<open>\<open>s.split(c)\<close>: never empty\<close>
  "py_split c s = foldr (\<lambda>x acc. if x = c then [] # acc else (x # hd acc) # tl acc) s [Nil]"

definition py_strip :: "string \<Rightarrow> string" where
  \<comment> \<open>\<open>str.strip()\<close>\<close>
  "py_strip s = rev (dropWhile is_space (rev (dropWhile is_space s)))"

section \<open>Regular expressions\<close>

text \<open>
  Patterns are abstract syntax trees; the matcher is a backtracking matcher that returns, for
  a start position, every way the pattern can match there, in the order in which Python's
  \<open>re\<close> module tries them (greedy repetition: longest first; lazy repetition: shortest
  first; alternation: left to right). The first element is the match \<open>re\<close> reports.
  A position in the text is the pair of the reversed text before it and the text after it;
  a matcher state adds the groups captured so far.
\<close>

datatype regex =
    Chr "char \<Rightarrow> bool"
  | Eps
  | Seq regex regex
  | Alt regex regex
  | Star regex
  | LazyStar regex
  | Grp nat regex
  | WordB
  | Eol

type_synonym groups = "(nat \<times> string) list"
type_synonym mstate = "string \<times> string \<times> groups"

definition bef :: "mstate \<Rightarrow> string" where "bef st = fst st"
definition aft :: "mstate \<Rightarrow> string" where "aft st = fst (snd st)"
definition grps :: "mstate \<Rightarrow> groups" where "grps st = snd (snd st)"

fun star_loop :: "nat \<Rightarrow> (mstate \<Rightarrow> mstate list) \<Rightarrow> mstate \<Rightarrow> mstate list" where
  \<comment> \<open>greedy \<open>*\<close>: iterate while the body consumes text, then stop; the counter is the
      length of the remaining text\<close>
  "star_loop 0 f st = [st]"
| "star_loop (Suc n) f st =
     concat (map (\<lambda>st'. if length (aft st') < length (aft st) then star_loop n f st' else [])
               (f st)) @ [st]"

fun lazy_loop :: "nat \<Rightarrow> (mstate \<Rightarrow> mstate list) \<Rightarrow> mstate \<Rightarrow> mstate list" where
  \<comment> \<open>lazy \<open>*?\<close>: stop first, iterate on backtracking\<close>
  "lazy_loop 0 f st = [st]"
| "lazy_loop (Suc n) f st =
     st # concat (map (\<lambda>st'. if length (aft st') < length (aft st) then lazy_loop n f st' else [])
               (f st))"

definition at_boundary :: "string \<Rightarrow> string \<Rightarrow> bool" where
  \<comment> \<open>\<open>\b\<close>: exactly one of the characters before and after the position is a word character\<close>
  "at_boundary b a =
     ((case b of [] \<Rightarrow> False | c # _ \<Rightarrow> is_word c) \<noteq> (case a of [] \<Rightarrow> False | c # _ \<Rightarrow> is_word c))"

definition consumed :: "string \<Rightarrow> string \<Rightarrow> string" where
  \<comment> \<open>the text between a position with reversed prefix \<open>b\<close> and a later one with \<open>b'\<close>\<close>
  "consumed b b' = rev (take (length b' - length b) b')"

primrec m :: "regex \<Rightarrow> mstate \<Rightarrow> mstate list" where
  "m (Chr p) st =
     (case aft st of [] \<Rightarrow> []
      | c # cs \<Rightarrow> if p c then [(c # bef st, cs, grps st)] else [])"
| "m Eps st = [st]"
| "m (Seq r1 r2) st = concat (map (m r2) (m r1 st))"
| "m (Alt r1 r2) st = m r1 st @ m r2 st"
| "m (Star r) st = star_loop (length (aft st)) (m r) st"
| "m (LazyStar r) st = lazy_loop (length (aft st)) (m r) st"
| "m (Grp i r) st =
     map (\<lambda>st'. (bef st', aft st', (i, consumed (bef st) (bef st')) # grps st')) (m r st)"
| "m WordB st = (if at_boundary (bef st) (aft st) then [st] else [])"
| "m Eol st = (if aft st = [] \<or> aft st = [CHR 0x0A] then [st] else [])"

primrec ngroups :: "regex \<Rightarrow> nat" where
  "ngroups (Chr p) = 0"
| "ngroups Eps = 0"
| "ngroups (Seq r1 r2) = ngroups r1 + ngroups r2"
| "ngroups (Alt r1 r2) = ngroups r1 + ngroups r2"
| "ngroups (Star r) = ngroups r"
| "ngroups (LazyStar r) = ngroups r"
| "ngroups (Grp i r) = Suc (ngroups r)"
| "ngroups WordB = 0"
| "ngroups Eol = 0"

text \<open>A match object: the whole match and the captured groups.\<close>

type_synonym match = "string \<times> groups"

definition group :: "match \<Rightarrow> nat \<Rightarrow> string option" where
  \<comment> \<open>\<open>match.group(i)\<close>: \<open>None\<close> for a group that took no part in the match\<close>
  "group mt i = (if i = 0 then Some (fst mt) else map_of (snd mt) i)"

fun search_from :: "regex \<Rightarrow> string \<Rightarrow> string \<Rightarrow> match option" where
  "search_from r b [] =
     (case m r (b, [], []) of [] \<Rightarrow> None
      | st # _ \<Rightarrow> Some (consumed b (bef st), grps st))"
| "search_from r b (c # cs) =
     (case m r (b, c # cs, []) of [] \<Rightarrow> search_from r (c # b) cs
      | st # _ \<Rightarrow> Some (consumed b (bef st), grps st))"

definition re_search :: "regex \<Rightarrow> string \<Rightarrow> match option" where
  \<comment> \<open>\<open>re.search\<close>: the first match at the leftmost position that has one\<close>
  "re_search r text = search_from r [] text"

function finditer_from :: "regex \<Rightarrow> string \<Rightarrow> string \<Rightarrow> match list" where
  "finditer_from r b a =
     (case m r (b, a, []) of
        [] \<Rightarrow> (case a of [] \<Rightarrow> [] | c # cs \<Rightarrow> finditer_from r (c # b) cs)
      | st # _ \<Rightarrow>
          (consumed b (bef st), grps st) #
          (if length (aft st) < length a then finditer_from r (bef st) (aft st)
           else (case a of [] \<Rightarrow> [] | c # cs \<Rightarrow> finditer_from r (c # b) cs)))"
  by pat_completeness auto
termination
  by (relation "measure (\<lambda>(r, b, a). length a)") auto

definition re_findall :: "regex \<Rightarrow> string \<Rightarrow> string list" where
  \<comment> \<open>\<open>re.findall\<close> for a pattern with at most one group: the group if there is one, the
      whole match otherwise; the empty string for a group that took no part\<close>
  "re_findall r text =
     map (\<lambda>mt. if ngroups r = 0 then fst mt
               else (case group mt 1 of None \<Rightarrow> [] | Some g \<Rightarrow> g))
       (finditer_from r [] text)"

subsection \<open>Building patterns\<close>

definition ic :: "(char \<Rightarrow> bool) \<Rightarrow> char \<Rightarrow> bool" where
  \<comment> \<open>a character class under \<open>re.IGNORECASE\<close>\<close>
  "ic p c = (p (py_lower_char c) \<or> p (py_upper_char (py_lower_char c)))"

definition lit :: "string \<Rightarrow> regex" where
  "lit s = foldr (\<lambda>c r. Seq (Chr (\<lambda>x. x = c)) r) s Eps"

definition liti :: "string \<Rightarrow> regex" where
  \<comment> \<open>a literal under \<open>re.IGNORECASE\<close>\<close>
  "liti s = foldr (\<lambda>c r. Seq (Chr (ic (\<lambda>x. x = c))) r) s Eps"

definition Opt :: "regex \<Rightarrow> regex" where
  \<comment> \<open>\<open>r?\<close>\<close>
  "Opt r = Alt r Eps"

definition Plus :: "regex \<Rightarrow> regex" where
  \<comment> \<open>\<open>r+\<close>\<close>
  "Plus r = Seq r (Star r)"

definition LazyPlus :: "regex \<Rightarrow> regex" where
  \<comment> \<open>\<open>r+?\<close>\<close>
  "LazyPlus r = Seq r (LazyStar r)"

primrec times :: "nat \<Rightarrow> regex \<Rightarrow> regex" where
  \<comment> \<open>\<open>r{n}\<close>\<close>
  "times 0 r = Eps"
| "times (Suc n) r = Seq r (times n r)"

primrec upto :: "nat \<Rightarrow> regex \<Rightarrow> regex" where
  \<comment> \<open>\<open>r{0,n}\<close>\<close>
  "upto 0 r = Eps"
| "upto (Suc n) r = Opt (Seq r (upto n r))"

definition between :: "nat \<Rightarrow> nat \<Rightarrow> regex \<Rightarrow> regex" where
  \<comment> \<open>\<open>r{lo,hi}\<close>\<close>
  "between lo hi r = Seq (times lo r) (upto (hi - lo) r)"

definition at_least :: "nat \<Rightarrow> regex \<Rightarrow> regex" where
  \<comment> \<open>\<open>r{n,}\<close>\<close>
  "at_least n r = Seq (times n r) (Star r)"

abbreviation "digit \<equiv> Chr is_digit"
abbreviation "space \<equiv> Chr is_space"
abbreviation "ch c \<equiv> Chr (\<lambda>x. x = c)"


section \<open>Amounts\<close>

datatype currency = COP | USD | UNKNOWN

text \<open>
  An amount candidate. The source's \<open>amount\<close> is \<open>float(amount_str)\<close>: the model keeps
  the decimal value of \<open>amount_str\<close> as a rational number, which Python rounds to the nearest
  binary64 (the two are equal whenever the decimal is representable, as for 51558.00 and
  200000). The source's third field, \<open>formatted\<close>, is a rendering of that binary value by
  Python's float formatting and is not part of the model.
\<close>

record amount_candidate =
  amount :: rat
  currency :: currency

definition COLOMBIAN_BANKS :: "string set" where
  "COLOMBIAN_BANKS = {
     ''bancolombia'', ''davivienda'', ''bbva colombia'', ''banco de bogot'' @ [CHR 0xE1],
     ''banco de occidente'', ''banco popular'', ''banco av villas'',
     ''banco caja social'', ''bancoomeva'', ''colpatria'', ''ita'' @ [CHR 0xFA]}"

definition digit_val :: "char \<Rightarrow> nat" where
  "digit_val c = code c - 48"

definition digits_value :: "string \<Rightarrow> nat" where
  "digits_value ds = foldl (\<lambda>n c. 10 * n + digit_val c) 0 ds"

definition frac_len :: "string \<Rightarrow> nat" where
  \<comment> \<open>the number of characters after the last period, 0 without a period\<close>
  "frac_len s = (if CHR ''.'' \<in> set s then length (takeWhile (\<lambda>c. c \<noteq> CHR ''.'') (rev s)) else 0)"

definition py_float :: "string \<Rightarrow> rat option" where
  \<comment> \<open>\<open>float(s)\<close> on the strings the amount patterns produce, digits and periods: the value
      of a numeral with at most one period, \<open>None\<close> (the source's \<open>ValueError\<close>) otherwise\<close>
  "py_float s =
     (if (\<forall>c \<in> set s. is_digit c \<or> c = CHR ''.'') \<and> py_count CHR ''.'' s \<le> 1
         \<and> (\<exists>c \<in> set s. is_digit c)
      then Some (of_nat (digits_value (filter is_digit s)) / 10 ^ frac_len s)
      else None)"

definition cop_pattern :: regex where
  \<comment> \<open>\<open>COP\s*(\d{1,3}(?:\.\d{3})*(?:,\d{2})?)\<close>, \<open>re.IGNORECASE\<close>\<close>
  "cop_pattern =
     Seq (liti ''COP'') (Seq (Star space)
       (Grp 1 (Seq (between 1 3 digit)
              (Seq (Star (Seq (ch CHR ''.'') (times 3 digit)))
                   (Opt (Seq (ch CHR '','') (times 2 digit)))))))"

definition usd_pattern :: regex where
  \<comment> \<open>\<open>USD\s*(\d{1,3}(?:,\d{3})*(?:\.\d{2})?)\<close>, \<open>re.IGNORECASE\<close>\<close>
  "usd_pattern =
     Seq (liti ''USD'') (Seq (Star space)
       (Grp 1 (Seq (between 1 3 digit)
              (Seq (Star (Seq (ch CHR '','') (times 3 digit)))
                   (Opt (Seq (ch CHR ''.'') (times 2 digit)))))))"

definition is_sep :: "char \<Rightarrow> bool" where
  \<comment> \<open>\<open>[\.,]\<close>\<close>
  "is_sep c = (c = CHR ''.'' \<or> c = CHR '','')"

definition dollar_sign_pattern :: regex where
  \<comment> \<open>\<open>\$\s*(\d{1,3}(?:[\.,]\d{3})*(?:[\.,]\d{2})?)\<close>\<close>
  "dollar_sign_pattern =
     Seq (ch CHR ''$'') (Seq (Star space)
       (Grp 1 (Seq (between 1 3 digit)
              (Seq (Star (Seq (Chr is_sep) (times 3 digit)))
                   (Opt (Seq (Chr is_sep) (times 2 digit)))))))"

definition general_cop :: regex where
  \<comment> \<open>\<open>(\d{1,3}(?:\.\d{3})+(?:,\d{2})?)\<close>\<close>
  "general_cop =
     Grp 1 (Seq (between 1 3 digit)
           (Seq (Plus (Seq (ch CHR ''.'') (times 3 digit)))
                (Opt (Seq (ch CHR '','') (times 2 digit)))))"

definition is_colombian_bank :: "string list option \<Rightarrow> bool" where
  \<comment> \<open>\<open>banks\<close> defaults to \<open>None\<close>; \<open>if banks:\<close> is false for \<open>None\<close> and for the empty list\<close>
  "is_colombian_bank banks =
     (case banks of None \<Rightarrow> False
      | Some bs \<Rightarrow> if bs = [] then False
                   else list_ex (\<lambda>bank. py_lower bank \<in> COLOMBIAN_BANKS) bs)"

text \<open>
  The body of each of the four loops of \<open>extract_amounts\<close>: the candidate appended for one
  match, or \<open>None\<close> where \<open>float\<close> raises \<open>ValueError\<close> and the loop continues.
\<close>

definition cop_candidate :: "string \<Rightarrow> amount_candidate option" where
  "cop_candidate match =
     (let amount_str = py_replace CHR '','' ''.'' (py_replace CHR ''.'' [] match)
      in case py_float amount_str of
           None \<Rightarrow> None
         | Some a \<Rightarrow> Some \<lparr>amount = a, currency = COP\<rparr>)"

definition usd_candidate :: "string \<Rightarrow> amount_candidate option" where
  "usd_candidate match =
     (case py_float (py_replace CHR '','' [] match) of
        None \<Rightarrow> None
      | Some a \<Rightarrow> Some \<lparr>amount = a, currency = USD\<rparr>)"

definition dollar_amount_str :: "string \<Rightarrow> string" where
  \<comment> \<open>the Colombian branch of priority 3\<close>
  "dollar_amount_str match =
     (if CHR ''.'' \<in> set match \<and> CHR '','' \<in> set match
      then py_replace CHR '','' ''.'' (py_replace CHR ''.'' [] match)
      else if CHR ''.'' \<in> set match
      then (if py_count CHR ''.'' match \<ge> 1 \<and> length (last (py_split CHR ''.'' match)) = 3
            then py_replace CHR ''.'' [] match
            else match)
      else py_replace CHR '','' ''.'' match)"

definition dollar_candidate :: "bool \<Rightarrow> string \<Rightarrow> amount_candidate option" where
  "dollar_candidate colombian match =
     (if colombian
      then (case py_float (dollar_amount_str match) of
              None \<Rightarrow> None
            | Some a \<Rightarrow> Some \<lparr>amount = a, currency = COP\<rparr>)
      else (case py_float (py_replace CHR '','' [] match) of
              None \<Rightarrow> None
            | Some a \<Rightarrow> Some \<lparr>amount = a, currency = USD\<rparr>))"

definition general_candidate :: "bool \<Rightarrow> string \<Rightarrow> amount_candidate option" where
  "general_candidate colombian match =
     (let amount_str = py_replace CHR '','' ''.'' (py_replace CHR ''.'' [] match)
      in case py_float amount_str of
           None \<Rightarrow> None
         | Some a \<Rightarrow> Some \<lparr>amount = a, currency = (if colombian then COP else UNKNOWN)\<rparr>)"

definition append_matches ::
  "(string \<Rightarrow> amount_candidate option) \<Rightarrow> string list \<Rightarrow> amount_candidate list
     \<Rightarrow> amount_candidate list" where
  \<comment> \<open>a \<open>for match in matches: try: ... amounts.append(...) except ValueError: continue\<close> loop\<close>
  "append_matches body matches amounts =
     foldl (\<lambda>acc match. case body match of None \<Rightarrow> acc | Some cand \<Rightarrow> acc @ [cand])
       amounts matches"

definition extract_amounts :: "string \<Rightarrow> string list option \<Rightarrow> amount_candidate list" where
  "extract_amounts text banks =
     (let amounts = [];
          colombian = is_colombian_bank banks;
          amounts = append_matches cop_candidate (re_findall cop_pattern text) amounts;
          amounts = append_matches usd_candidate (re_findall usd_pattern text) amounts;
          amounts = append_matches (dollar_candidate colombian)
                      (re_findall dollar_sign_pattern text) amounts
      in if amounts = []
         then append_matches (general_candidate colombian) (re_findall general_cop text) amounts
         else amounts)"

section \<open>Auxiliary field extractors\<close>

definition findall_patterns :: "regex list \<Rightarrow> string \<Rightarrow> string list" where
  \<comment> \<open>\<open>for pattern in patterns: result.extend(re.findall(pattern, text, ...))\<close>\<close>
  "findall_patterns patterns text = concat (map (\<lambda>pattern. re_findall pattern text) patterns)"

definition month_names :: regex where
  \<comment> \<open>\<open>(?:Jan|Feb|Mar|Apr|May|Jun|Jul|Aug|Sep|Oct|Nov|Dec)\<close>, \<open>re.IGNORECASE\<close>\<close>
  "month_names =
     Alt (liti ''Jan'') (Alt (liti ''Feb'') (Alt (liti ''Mar'') (Alt (liti ''Apr'')
    (Alt (liti ''May'') (Alt (liti ''Jun'') (Alt (liti ''Jul'') (Alt (liti ''Aug'')
    (Alt (liti ''Sep'') (Alt (liti ''Oct'') (Alt (liti ''Nov'') (liti ''Dec'')))))))))))"

definition date_patterns :: "regex list" where
  \<comment> \<open>\<open>\d{1,2}/\d{1,2}/\d{2,4}\<close>, \<open>\d{4}-\d{2}-\d{2}\<close>,
      \<open>(?:Jan|...|Dec)[a-z]* \d{1,2},? \d{4}\<close>, all under \<open>re.IGNORECASE\<close>\<close>
  "date_patterns = [
     Seq (between 1 2 digit) (Seq (ch CHR ''/'') (Seq (between 1 2 digit)
       (Seq (ch CHR ''/'') (between 2 4 digit)))),
     Seq (times 4 digit) (Seq (ch CHR ''-'') (Seq (times 2 digit)
       (Seq (ch CHR ''-'') (times 2 digit)))),
     Seq month_names (Seq (Star (Chr (ic is_lower_az))) (Seq (ch CHR '' '')
       (Seq (between 1 2 digit) (Seq (Opt (ch CHR '','')) (Seq (ch CHR '' '') (times 4 digit))))))]"

definition extract_dates :: "string \<Rightarrow> string list" where
  "extract_dates text = findall_patterns date_patterns text"

definition number_label :: regex where
  \<comment> \<open>\<open>(?:NO|NUMBER|#)?\<close>, \<open>re.IGNORECASE\<close>\<close>
  "number_label = Opt (Alt (liti ''NO'') (Alt (liti ''NUMBER'') (ch CHR ''#'')))"

definition is_ref_char :: "char \<Rightarrow> bool" where
  \<comment> \<open>\<open>[A-Z0-9-]\<close>\<close>
  "is_ref_char c = (is_upper_az c \<or> is_digit c \<or> c = CHR ''-'')"

definition reference_patterns :: "regex list" where
  \<comment> \<open>\<open>(?:REF|REFERENCE|CONFIRMATION|TRANSACTION)\s*(?:NO|NUMBER|#)?:?\s*([A-Z0-9-]+)\<close> and
      \<open>\b[A-Z]{2,}\d{6,}\b\<close>, under \<open>re.IGNORECASE\<close>\<close>
  "reference_patterns = [
     Seq (Alt (liti ''REF'') (Alt (liti ''REFERENCE'') (Alt (liti ''CONFIRMATION'')
            (liti ''TRANSACTION''))))
       (Seq (Star space) (Seq number_label (Seq (Opt (ch CHR '':'')) (Seq (Star space)
          (Grp 1 (Plus (Chr (ic is_ref_char)))))))),
     Seq WordB (Seq (at_least 2 (Chr (ic is_upper_az))) (Seq (at_least 6 digit) WordB))]"

definition extract_reference_numbers :: "string \<Rightarrow> string list" where
  "extract_reference_numbers text = findall_patterns reference_patterns text"

definition account_patterns :: "regex list" where
  \<comment> \<open>\<open>\*{4,}(\d{4})\<close> and \<open>(?:ACCOUNT|ACCT)\s*(?:NO|NUMBER|#)?:?\s*\**(\d{4})\<close>,
      under \<open>re.IGNORECASE\<close>\<close>
  "account_patterns = [
     Seq (at_least 4 (ch CHR ''*'')) (Grp 1 (times 4 digit)),
     Seq (Alt (liti ''ACCOUNT'') (liti ''ACCT''))
       (Seq (Star space) (Seq number_label (Seq (Opt (ch CHR '':'')) (Seq (Star space)
          (Seq (Star (ch CHR ''*'')) (Grp 1 (times 4 digit)))))))]"

definition extract_account_numbers :: "string \<Rightarrow> string list" where
  "extract_account_numbers text = findall_patterns account_patterns text"

function sub_from :: "regex \<Rightarrow> string \<Rightarrow> string \<Rightarrow> string \<Rightarrow> string" where
  "sub_from r repl b a =
     (case m r (b, a, []) of
        [] \<Rightarrow> (case a of [] \<Rightarrow> [] | c # cs \<Rightarrow> c # sub_from r repl (c # b) cs)
      | st # _ \<Rightarrow>
          repl @
          (if length (aft st) < length a then sub_from r repl (bef st) (aft st)
           else (case a of [] \<Rightarrow> [] | c # cs \<Rightarrow> c # sub_from r repl (c # b) cs)))"
  by pat_completeness auto
termination
  by (relation "measure (\<lambda>(r, repl, b, a). length a)") auto

definition re_sub :: "regex \<Rightarrow> string \<Rightarrow> string \<Rightarrow> string" where
  \<comment> \<open>\<open>re.sub(pattern, repl, text)\<close> for a replacement without group references\<close>
  "re_sub r repl text = sub_from r repl [] text"

definition group_str :: "match \<Rightarrow> nat \<Rightarrow> string" where
  \<comment> \<open>\<open>match.group(i)\<close> where the group takes part in every match of the pattern\<close>
  "group_str mt i = (case group mt i of None \<Rightarrow> [] | Some g \<Rightarrow> g)"

definition merchant_name :: regex where
  \<comment> \<open>\<open>([A-Z][A-Z\s]+?)\<close>\<close>
  "merchant_name = Grp 1 (Seq (Chr is_upper_az) (LazyPlus (Chr (\<lambda>c. is_upper_az c \<or> is_space c))))"

definition merchant_patterns :: "regex list" where
  \<comment> \<open>\<open>en\s+([A-Z][A-Z\s]+?)(?:\s+con\s+)\<close>, \<open>at\s+([A-Z][A-Z\s]+?)(?:\s|$)\<close>,
      \<open>@\s*([A-Z][A-Z\s]+?)(?:\s|$)\<close>\<close>
  "merchant_patterns = [
     Seq (lit ''en'') (Seq (Plus space) (Seq merchant_name
       (Seq (Plus space) (Seq (lit ''con'') (Plus space))))),
     Seq (lit ''at'') (Seq (Plus space) (Seq merchant_name (Alt space Eol))),
     Seq (ch CHR ''@'') (Seq (Star space) (Seq merchant_name (Alt space Eol)))]"

fun extract_merchant_loop :: "regex list \<Rightarrow> string \<Rightarrow> string option" where
  "extract_merchant_loop [] text = None"
| "extract_merchant_loop (pattern # patterns) text =
     (case re_search pattern text of
        Some mt \<Rightarrow>
          (let merchant = py_strip (group_str mt 1);
               merchant = re_sub (Plus space) '' '' merchant
           in Some merchant)
      | None \<Rightarrow> extract_merchant_loop patterns text)"

definition extract_merchant :: "string \<Rightarrow> string option" where
  "extract_merchant text = extract_merchant_loop merchant_patterns text"

record card_info =
  card_type :: string
  last4 :: string

definition card_patterns :: "regex list" where
  \<comment> \<open>\<open>(T\.Cred|T\.Deb|Tarjeta)\s*\*(\d{4})\<close>, \<open>(Credit|Debit|Card)\s*\*(\d{4})\<close>,
      \<open>\*(\d{4})\<close>, under \<open>re.IGNORECASE\<close>\<close>
  "card_patterns = [
     Seq (Grp 1 (Alt (liti ''T.Cred'') (Alt (liti ''T.Deb'') (liti ''Tarjeta''))))
       (Seq (Star space) (Seq (ch CHR ''*'') (Grp 2 (times 4 digit)))),
     Seq (Grp 1 (Alt (liti ''Credit'') (Alt (liti ''Debit'') (liti ''Card''))))
       (Seq (Star space) (Seq (ch CHR ''*'') (Grp 2 (times 4 digit)))),
     Seq (ch CHR ''*'') (Grp 1 (times 4 digit))]"

fun extract_card_info_loop :: "regex list \<Rightarrow> string \<Rightarrow> card_info option" where
  "extract_card_info_loop [] text = None"
| "extract_card_info_loop (pattern # patterns) text =
     (case re_search pattern text of
        Some mt \<Rightarrow>
          (if ngroups pattern = 2
           then (let ctype = group_str mt 1;
                     ctype = (if py_in ''T.Cred'' ctype \<or> py_in ''Tarjeta'' ctype
                              then ''Credit Card''
                              else if py_in ''T.Deb'' ctype then ''Debit Card''
                              else ctype)
                 in Some \<lparr>card_type = ctype, last4 = group_str mt 2\<rparr>)
           else Some \<lparr>card_type = ''Unknown'', last4 = group_str mt 1\<rparr>)
      | None \<Rightarrow> extract_card_info_loop patterns text)"

definition extract_card_info :: "string \<Rightarrow> card_info option" where
  "extract_card_info text = extract_card_info_loop card_patterns text"

definition py_format :: "string option \<Rightarrow> string" where
  \<comment> \<open>an optional string inside an f-string: \<open>None\<close> is rendered as the word \<open>None\<close>\<close>
  "py_format v = (case v of None \<Rightarrow> ''None'' | Some s \<Rightarrow> s)"

definition time_patterns :: "regex list" where
  \<comment> \<open>\<open>\b([0-2]?\d):([0-5]\d)\s*(AM|PM|am|pm)?\b\<close> and \<open>a\s+las\s+([0-2]?\d):([0-5]\d)\<close>\<close>
  "time_patterns = [
     Seq WordB (Seq (Grp 1 (Seq (Opt (Chr (\<lambda>c. c \<in> set ''012''))) digit))
       (Seq (ch CHR '':'') (Seq (Grp 2 (Seq (Chr (\<lambda>c. c \<in> set ''012345'')) digit))
          (Seq (Star space)
             (Seq (Opt (Grp 3 (Alt (lit ''AM'') (Alt (lit ''PM'') (Alt (lit ''am'') (lit ''pm''))))))
                WordB))))),
     Seq (ch CHR ''a'') (Seq (Plus space) (Seq (lit ''las'') (Seq (Plus space)
       (Seq (Grp 1 (Seq (Opt (Chr (\<lambda>c. c \<in> set ''012''))) digit))
          (Seq (ch CHR '':'') (Grp 2 (Seq (Chr (\<lambda>c. c \<in> set ''012345'')) digit)))))))]"

fun extract_time_loop :: "regex list \<Rightarrow> string \<Rightarrow> string option" where
  "extract_time_loop [] text = None"
| "extract_time_loop (pattern # patterns) text =
     (case re_search pattern text of
        Some mt \<Rightarrow>
          (let hour = group mt 1;
               minute = group mt 2;
               meridiem = (if ngroups pattern \<ge> 3 then py_format (group mt 3) else [])
           in Some (py_strip (py_format hour @ '':'' @ py_format minute @ '' '' @ meridiem)))
      | None \<Rightarrow> extract_time_loop patterns text)"

definition extract_time :: "string \<Rightarrow> string option" where
  "extract_time text = extract_time_loop time_patterns text"

definition any_keyword :: "string list \<Rightarrow> string \<Rightarrow> bool" where
  \<comment> \<open>\<open>any(keyword in text_lower for keyword in keywords)\<close>\<close>
  "any_keyword keywords text_lower = list_ex (\<lambda>keyword. py_in keyword text_lower) keywords"

definition detect_transaction_type :: "string \<Rightarrow> string" where
  "detect_transaction_type text =
     (let text_lower = py_lower text
      in if any_keyword [''compraste'', ''compra'', ''purchase''] text_lower then ''PURCHASE''
         else if any_keyword [''transferiste'', ''transferencia'', ''wire transfer'', ''wire'']
                   text_lower then ''WIRE_TRANSFER''
         else if any_keyword [''retiraste'', ''retiro'', ''withdrawal'', ''withdraw'', ''atm'']
                   text_lower then ''WITHDRAWAL''
         else if any_keyword [''depositaste'', ''dep'' @ [CHR 0xF3] @ ''sito'', ''deposit'',
                   ''deposited''] text_lower then ''DEPOSIT''
         else if any_keyword [''pagaste'', ''pago'', ''payment'', ''paid''] text_lower
              then ''PAYMENT''
         else if any_keyword [''ach'', ''electronic transfer''] text_lower then ''ACH_TRANSFER''
         else ''UNKNOWN'')"

section \<open>The annotation document\<close>

text \<open>
  The parsed JSON input. A key that may be absent is an \<open>option\<close>; an annotation entry is
  the value of its \<open>description\<close> key, \<open>None\<close> when the entry has none.
\<close>

record annotations =
  textAnnotations :: "string option list option"
  logoAnnotations :: "string option list option"
  labelAnnotations :: "string option list option"

record document =
  responses :: "annotations list option"
  top_level :: annotations

definition get_description :: "string option \<Rightarrow> string" where
  \<comment> \<open>\<open>entry.get('description', '')\<close>\<close>
  "get_description entry = (case entry of None \<Rightarrow> [] | Some d \<Rightarrow> d)"

definition extract_text_from_annotations :: "annotations \<Rightarrow> string" where
  "extract_text_from_annotations ann =
     (case textAnnotations ann of
        Some (entry # _) \<Rightarrow> get_description entry
      | _ \<Rightarrow> [])"

definition common_banks :: "string list" where
  "common_banks = [
     ''Bancolombia'', ''Davivienda'', ''BBVA Colombia'', ''Banco de Bogot'' @ [CHR 0xE1],
     ''Banco de Occidente'', ''Banco Popular'', ''Banco AV Villas'',
     ''Banco Caja Social'', ''Bancoomeva'', ''Colpatria'', ''Ita'' @ [CHR 0xFA],
     ''Chase'', ''Bank of America'', ''Wells Fargo'', ''Citibank'', ''Capital One'',
     ''US Bank'', ''PNC'', ''TD Bank'', ''Truist'', ''Fifth Third'', ''Santander'']"

definition bank_candidates :: "annotations \<Rightarrow> string list" where
  \<comment> \<open>the list \<open>banks\<close> of \<open>extract_bank_names\<close> before duplicates are removed\<close>
  "bank_candidates ann =
     (let banks = [];
          banks = (case logoAnnotations ann of
                     None \<Rightarrow> banks
                   | Some logos \<Rightarrow> banks @ map get_description logos);
          banks = (case textAnnotations ann of
                     Some (entry # _) \<Rightarrow>
                       (let text = get_description entry
                        in banks @ filter (\<lambda>bank. py_in (py_lower bank) (py_lower text))
                                     common_banks)
                   | _ \<Rightarrow> banks)
      in banks)"

text \<open>
  \<open>extract_bank_names\<close> returns \<open>list(set(banks))\<close>: the distinct names in the iteration
  order of a Python set of strings. That order follows the strings' hash values, which
  Python randomises for each process; it is the parameter \<open>set_order\<close> here, of which
  \<open>set_order_ok\<close> states what a set guarantees.
\<close>

definition set_order_ok :: "(string list \<Rightarrow> string list) \<Rightarrow> string list \<Rightarrow> bool" where
  "set_order_ok set_order xs = (distinct (set_order xs) \<and> set (set_order xs) = set xs)"

definition extract_bank_names :: "(string list \<Rightarrow> string list) \<Rightarrow> annotations \<Rightarrow> string list" where
  "extract_bank_names set_order ann = set_order (bank_candidates ann)"

section \<open>Assembling and validating the transaction\<close>

record transaction =
  raw_text :: string
  amounts :: "amount_candidate list"
  dates :: "string list"
  time :: "string option"
  merchant :: "string option"
  tx_card_info :: "card_info option"
  reference_numbers :: "string list"
  account_numbers :: "string list"
  transaction_type :: string
  banks :: "string list"
  document_labels :: "string list"

definition effective_annotations :: "document \<Rightarrow> annotations" where
  \<comment> \<open>\<open>annotations = data\<close>, replaced by \<open>data['responses'][0]\<close> when \<open>responses\<close> is
      present and non-empty\<close>
  "effective_annotations data =
     (case responses data of Some (first # _) \<Rightarrow> first | _ \<Rightarrow> top_level data)"

definition parse_transaction :: "(string list \<Rightarrow> string list) \<Rightarrow> document \<Rightarrow> transaction" where
  "parse_transaction set_order data =
     (let ann = effective_annotations data;
          full_text = extract_text_from_annotations ann;
          bs = extract_bank_names set_order ann
      in \<lparr>raw_text = full_text,
          amounts = extract_amounts full_text (Some bs),
          dates = extract_dates full_text,
          time = extract_time full_text,
          merchant = extract_merchant full_text,
          tx_card_info = extract_card_info full_text,
          reference_numbers = extract_reference_numbers full_text,
          account_numbers = extract_account_numbers full_text,
          transaction_type = detect_transaction_type full_text,
          banks = bs,
          document_labels = (case labelAnnotations ann of
                               None \<Rightarrow> []
                             | Some labels \<Rightarrow> map get_description (take 5 labels))\<rparr>)"

record validation =
  is_valid :: bool
  warnings :: "string list"
  errors :: "string list"

function py_str_nat :: "nat \<Rightarrow> string" where
  \<comment> \<open>the decimal numeral of a length inside an f-string\<close>
  "py_str_nat n =
     (if n < 10 then [char_of (48 + n)] else py_str_nat (n div 10) @ [char_of (48 + n mod 10)])"
  by pat_completeness auto
termination
  by (relation "measure id") auto

definition validate_transaction :: "transaction \<Rightarrow> validation" where
  "validate_transaction tx =
     (let v = \<lparr>is_valid = True, warnings = [], errors = []\<rparr>;
          v = (if amounts tx = []
               then v\<lparr>errors := errors v @ [''No monetary amounts detected''], is_valid := False\<rparr>
               else v);
          v = (if dates tx = [] then v\<lparr>warnings := warnings v @ [''No dates detected'']\<rparr> else v);
          v = (if transaction_type tx = ''UNKNOWN''
               then v\<lparr>warnings := warnings v @ [''Could not determine transaction type'']\<rparr>
               else v);
          v = (if reference_numbers tx = []
               then v\<lparr>warnings := warnings v @ [''No reference numbers detected'']\<rparr>
               else v);
          v = (if length (amounts tx) > 5
               then v\<lparr>warnings := warnings v @
                      [''Multiple amounts detected ('' @ py_str_nat (length (amounts tx)) @ '')'']\<rparr>
               else v);
          v = (if errors v \<noteq> [] then v\<lparr>is_valid := False\<rparr> else v)
      in v)"

definition run_pipeline ::
  "(string list \<Rightarrow> string list) \<Rightarrow> document \<Rightarrow> transaction \<times> validation" where
  \<comment> \<open>the two values \<open>main\<close> writes to the output file, as \<open>transaction\<close> and \<open>validation\<close>\<close>
  "run_pipeline set_order data =
     (let tx = parse_transaction set_order data;
          v = validate_transaction tx
      in (tx, v))"

section \<open>Notions used to state and prove the properties\<close>

text \<open>
  The words a pattern can match, wherever it is tried: the zero-width assertions \<open>\b\<close> and
  \<open>$\<close> are read as the empty word, so \<open>lang\<close> contains every match and possibly more.
\<close>

primrec lang :: "regex \<Rightarrow> string set" where
  "lang (Chr p) = {[c] | c. p c}"
| "lang Eps = {[]}"
| "lang (Seq r1 r2) = {u @ v | u v. u \<in> lang r1 \<and> v \<in> lang r2}"
| "lang (Alt r1 r2) = lang r1 \<union> lang r2"
| "lang (Star r) = {concat ws | ws. set ws \<subseteq> lang r}"
| "lang (LazyStar r) = {concat ws | ws. set ws \<subseteq> lang r}"
| "lang (Grp i r) = lang r"
| "lang WordB = {[]}"
| "lang Eol = {[]}"

text \<open>The strings group \<open>i\<close> of a pattern can capture, and whether every match sets the group.\<close>

primrec glang :: "nat \<Rightarrow> regex \<Rightarrow> string set" where
  "glang i (Chr p) = {}"
| "glang i Eps = {}"
| "glang i (Seq r1 r2) = glang i r1 \<union> glang i r2"
| "glang i (Alt r1 r2) = glang i r1 \<union> glang i r2"
| "glang i (Star r) = glang i r"
| "glang i (LazyStar r) = glang i r"
| "glang i (Grp j r) = (if i = j then lang r else {}) \<union> glang i r"
| "glang i WordB = {}"
| "glang i Eol = {}"

primrec sets_group :: "nat \<Rightarrow> regex \<Rightarrow> bool" where
  "sets_group i (Chr p) = False"
| "sets_group i Eps = False"
| "sets_group i (Seq r1 r2) = (sets_group i r1 \<or> sets_group i r2)"
| "sets_group i (Alt r1 r2) = (sets_group i r1 \<and> sets_group i r2)"
| "sets_group i (Star r) = False"
| "sets_group i (LazyStar r) = False"
| "sets_group i (Grp j r) = (i = j \<or> sets_group i r)"
| "sets_group i WordB = False"
| "sets_group i Eol = False"

text \<open>The characters that can occur in a match.\<close>

primrec chars :: "regex \<Rightarrow> char \<Rightarrow> bool" where
  "chars (Chr p) c = p c"
| "chars Eps c = False"
| "chars (Seq r1 r2) c = (chars r1 c \<or> chars r2 c)"
| "chars (Alt r1 r2) c = (chars r1 c \<or> chars r2 c)"
| "chars (Star r) c = chars r c"
| "chars (LazyStar r) c = chars r c"
| "chars (Grp i r) c = chars r c"
| "chars WordB c = False"
| "chars Eol c = False"

text \<open>\<open>moves st w st'\<close>: the matcher went from \<open>st\<close> to \<open>st'\<close> by reading the word \<open>w\<close>.\<close>

definition moves :: "mstate \<Rightarrow> string \<Rightarrow> mstate \<Rightarrow> bool" where
  "moves st w st' = (bef st' = rev w @ bef st \<and> aft st = w @ aft st')"

text \<open>
  What \<open>re.sub(r'\s+', ' ', a)\<close> guarantees of its result \<open>r\<close>: only blanks and the
  non-space characters of \<open>a\<close>, no two blanks in a row, and the first character kept when
  it is not a space.
\<close>

definition collapsed :: "string \<Rightarrow> string \<Rightarrow> bool" where
  "collapsed a r =
     ((\<forall>x \<in> set r. x = CHR '' '' \<or> (x \<in> set a \<and> \<not> is_space x))
      \<and> \<not> py_in ''  '' r
      \<and> (case a of [] \<Rightarrow> r = []
          | c # _ \<Rightarrow> if is_space c then True else r \<noteq> [] \<and> hd r = c))"

text \<open>
  A numeral that ends a \<open>$\<close> match is continued by the text after it when that text starts
  with a separator and two digits: the pattern then takes them as a further group.
\<close>

definition numeral_continues :: "string \<Rightarrow> bool" where
  "numeral_continues post =
     (case post of x # y # z # _ \<Rightarrow> is_sep x \<and> is_digit y \<and> is_digit z | _ \<Rightarrow> False)"

text \<open>Whether a pattern can match the empty word, and the patterns of the program.\<close>

primrec nullable :: "regex \<Rightarrow> bool" where
  "nullable (Chr p) = False"
| "nullable Eps = True"
| "nullable (Seq r1 r2) = (nullable r1 \<and> nullable r2)"
| "nullable (Alt r1 r2) = (nullable r1 \<or> nullable r2)"
| "nullable (Star r) = True"
| "nullable (LazyStar r) = True"
| "nullable (Grp i r) = nullable r"
| "nullable WordB = True"
| "nullable Eol = True"

definition all_patterns :: "regex list" where
  "all_patterns =
     [cop_pattern, usd_pattern, dollar_sign_pattern, general_cop, Plus space]
     @ date_patterns @ reference_patterns @ account_patterns @ merchant_patterns
     @ card_patterns @ time_patterns"

text \<open>
  The characters with which a \<open>COP\<close>, \<open>USD\<close> or \<open>$\<close> marker can start, the first two in
  either case.
\<close>

definition marker_start :: "char \<Rightarrow> bool" where
  "marker_start c =
     (ic (\<lambda>x. x = CHR ''C'') c \<or> ic (\<lambda>x. x = CHR ''U'') c \<or> c = CHR ''$'')"

text \<open>The candidates each rule of \<open>extract_amounts\<close> produces on a text, rule by rule.\<close>

definition priority1 :: "string \<Rightarrow> amount_candidate list" where
  "priority1 text = List.map_filter cop_candidate (re_findall cop_pattern text)"

definition priority2 :: "string \<Rightarrow> amount_candidate list" where
  "priority2 text = List.map_filter usd_candidate (re_findall usd_pattern text)"

definition priority3 :: "bool \<Rightarrow> string \<Rightarrow> amount_candidate list" where
  "priority3 colombian text =
     List.map_filter (dollar_candidate colombian) (re_findall dollar_sign_pattern text)"

definition priority4 :: "bool \<Rightarrow> string \<Rightarrow> amount_candidate list" where
  "priority4 colombian text =
     List.map_filter (general_candidate colombian) (re_findall general_cop text)"

definition empty_transaction :: transaction where
  "empty_transaction =
     \<lparr>raw_text = [], amounts = [], dates = [], time = None, merchant = None,
      tx_card_info = None, reference_numbers = [], account_numbers = [],
      transaction_type = ''UNKNOWN'', banks = [], document_labels = []\<rparr>"

text \<open>A document whose text names two banks.\<close>

definition two_banks_document :: document where
  "two_banks_document =
     \<lparr>responses = Some [\<lparr>textAnnotations = Some [Some ''Bancolombia a Davivienda''],
                          logoAnnotations = None, labelAnnotations = None\<rparr>],
      top_level = \<lparr>textAnnotations = None, logoAnnotations = None, labelAnnotations = None\<rparr>\<rparr>"

declare finditer_from.simps [simp del]
declare sub_from.simps [simp del]
declare py_str_nat.simps [simp del]

section \<open>Properties of the matcher\<close>

lemma star_loop_rel:
  assumes refl: "\<And>s. R s s"
    and trans: "\<And>a b c. R a b \<Longrightarrow> R b c \<Longrightarrow> R a c"
    and step: "\<And>s s'. s' \<in> set (f s) \<Longrightarrow> R s s'"
  shows "s' \<in> set (star_loop n f s) \<Longrightarrow> R s s'"
proof (induction n arbitrary: s)
  case 0
  then show ?case by (simp add: refl)
next
  case (Suc n)
  from Suc.prems consider "s' = s"
    | t where "t \<in> set (f s)" "s' \<in> set (star_loop n f t)"
    by (auto split: if_splits)
  then show ?case
  proof cases
    case 1
    then show ?thesis by (simp add: refl)
  next
    case 2
    then show ?thesis using Suc.IH step trans by blast
  qed
qed

lemma lazy_loop_rel:
  assumes refl: "\<And>s. R s s"
    and trans: "\<And>a b c. R a b \<Longrightarrow> R b c \<Longrightarrow> R a c"
    and step: "\<And>s s'. s' \<in> set (f s) \<Longrightarrow> R s s'"
  shows "s' \<in> set (lazy_loop n f s) \<Longrightarrow> R s s'"
proof (induction n arbitrary: s)
  case 0
  then show ?case by (simp add: refl)
next
  case (Suc n)
  from Suc.prems consider "s' = s"
    | t where "t \<in> set (f s)" "s' \<in> set (lazy_loop n f t)"
    by (auto split: if_splits)
  then show ?case
  proof cases
    case 1
    then show ?thesis by (simp add: refl)
  next
    case 2
    then show ?thesis using Suc.IH step trans by blast
  qed
qed

lemma moves_refl: "moves s [] s"
  by (simp add: moves_def)

lemma moves_trans: "moves a u b \<Longrightarrow> moves b v c \<Longrightarrow> moves a (u @ v) c"
  by (simp add: moves_def)

lemma moves_star_refl: "\<exists>ws. moves s (concat ws) s \<and> set ws \<subseteq> L"
  by (rule exI [of _ "[]"]) (simp add: moves_def)

lemma moves_star_trans:
  assumes "\<exists>ws. moves a (concat ws) b \<and> set ws \<subseteq> L"
    and "\<exists>ws. moves b (concat ws) c \<and> set ws \<subseteq> L"
  shows "\<exists>ws. moves a (concat ws) c \<and> set ws \<subseteq> L"
proof -
  from assms obtain us vs where "moves a (concat us) b" "set us \<subseteq> L"
    "moves b (concat vs) c" "set vs \<subseteq> L" by blast
  then have "moves a (concat (us @ vs)) c \<and> set (us @ vs) \<subseteq> L"
    by (simp add: moves_trans)
  then show ?thesis by blast
qed

lemma moves_star_step:
  assumes "\<exists>w. moves a w b \<and> w \<in> L"
  shows "\<exists>ws. moves a (concat ws) b \<and> set ws \<subseteq> L"
proof -
  from assms obtain w where "moves a w b" "w \<in> L" by blast
  then have "moves a (concat [w]) b \<and> set [w] \<subseteq> L" by simp
  then show ?thesis by blast
qed

lemma m_moves: "st' \<in> set (m r st) \<Longrightarrow> \<exists>w. moves st w st' \<and> w \<in> lang r"
proof (induction r arbitrary: st st')
  case (Chr p)
  then show ?case
    by (auto simp: moves_def bef_def aft_def split: list.splits if_splits)
next
  case Eps
  then show ?case by (simp add: moves_def)
next
  case (Seq r1 r2)
  from Seq.prems obtain t where t: "t \<in> set (m r1 st)" "st' \<in> set (m r2 t)" by auto
  from Seq.IH(1) [OF t(1)] obtain u where u: "moves st u t" "u \<in> lang r1" by blast
  from Seq.IH(2) [OF t(2)] obtain v where v: "moves t v st'" "v \<in> lang r2" by blast
  from u v have "moves st (u @ v) st' \<and> u @ v \<in> lang (Seq r1 r2)"
    by (auto simp: moves_trans)
  then show ?case by blast
next
  case (Alt r1 r2)
  from Alt.prems consider "st' \<in> set (m r1 st)" | "st' \<in> set (m r2 st)" by auto
  then show ?case
  proof cases
    case 1
    from Alt.IH(1) [OF 1] show ?thesis by auto
  next
    case 2
    from Alt.IH(2) [OF 2] show ?thesis by auto
  qed
next
  case (Star r)
  have "\<exists>ws. moves st (concat ws) st' \<and> set ws \<subseteq> lang r"
  proof (rule star_loop_rel [where f = "m r" and n = "length (aft st)"
        and R = "\<lambda>a b. \<exists>ws. moves a (concat ws) b \<and> set ws \<subseteq> lang r"])
    show "\<exists>ws. moves s (concat ws) s \<and> set ws \<subseteq> lang r" for s
      by (rule moves_star_refl)
    show "\<exists>ws. moves a (concat ws) c \<and> set ws \<subseteq> lang r"
      if "\<exists>ws. moves a (concat ws) b \<and> set ws \<subseteq> lang r"
        and "\<exists>ws. moves b (concat ws) c \<and> set ws \<subseteq> lang r" for a b c
      using that by (rule moves_star_trans)
    show "\<exists>ws. moves s (concat ws) s' \<and> set ws \<subseteq> lang r" if "s' \<in> set (m r s)" for s s'
      using Star.IH [OF that] by (rule moves_star_step)
    show "st' \<in> set (star_loop (length (aft st)) (m r) st)"
      using Star.prems by simp
  qed
  then show ?case by auto
next
  case (LazyStar r)
  have "\<exists>ws. moves st (concat ws) st' \<and> set ws \<subseteq> lang r"
  proof (rule lazy_loop_rel [where f = "m r" and n = "length (aft st)"
        and R = "\<lambda>a b. \<exists>ws. moves a (concat ws) b \<and> set ws \<subseteq> lang r"])
    show "\<exists>ws. moves s (concat ws) s \<and> set ws \<subseteq> lang r" for s
      by (rule moves_star_refl)
    show "\<exists>ws. moves a (concat ws) c \<and> set ws \<subseteq> lang r"
      if "\<exists>ws. moves a (concat ws) b \<and> set ws \<subseteq> lang r"
        and "\<exists>ws. moves b (concat ws) c \<and> set ws \<subseteq> lang r" for a b c
      using that by (rule moves_star_trans)
    show "\<exists>ws. moves s (concat ws) s' \<and> set ws \<subseteq> lang r" if "s' \<in> set (m r s)" for s s'
      using LazyStar.IH [OF that] by (rule moves_star_step)
    show "st' \<in> set (lazy_loop (length (aft st)) (m r) st)"
      using LazyStar.prems by simp
  qed
  then show ?case by auto
next
  case (Grp i r)
  from Grp.prems obtain t where t: "t \<in> set (m r st)"
    "st' = (bef t, aft t, (i, consumed (bef st) (bef t)) # grps t)" by auto
  from Grp.IH [OF t(1)] obtain w where "moves st w t" "w \<in> lang r" by blast
  then have "moves st w st' \<and> w \<in> lang (Grp i r)"
    using t(2) by (simp add: moves_def bef_def aft_def)
  then show ?case by blast
next
  case WordB
  then show ?case by (auto simp: moves_def split: if_splits)
next
  case Eol
  then show ?case by (auto simp: moves_def split: if_splits)
qed

lemma consumed_moves: "moves st w st' \<Longrightarrow> consumed (bef st) (bef st') = w"
  by (simp add: moves_def consumed_def)

lemma m_groups:
  "st' \<in> set (m r st) \<Longrightarrow> map_of (grps st') i = Some g
     \<Longrightarrow> map_of (grps st) i = Some g \<or> g \<in> glang i r"
proof (induction r arbitrary: st st')
  case (Chr p)
  then show ?case
    by (auto simp: grps_def split: list.splits if_splits)
next
  case Eps
  then show ?case by simp
next
  case (Seq r1 r2)
  from Seq.prems obtain t where t: "t \<in> set (m r1 st)" "st' \<in> set (m r2 t)" by auto
  from Seq.IH(2) [OF t(2) Seq.prems(2)] Seq.IH(1) [OF t(1)]
  show ?case by auto
next
  case (Alt r1 r2)
  from Alt.prems(1) consider "st' \<in> set (m r1 st)" | "st' \<in> set (m r2 st)" by auto
  then show ?case
  proof cases
    case 1
    from Alt.IH(1) [OF 1 Alt.prems(2)] show ?thesis by auto
  next
    case 2
    from Alt.IH(2) [OF 2 Alt.prems(2)] show ?thesis by auto
  qed
next
  case (Star r)
  have "map_of (grps st') i = Some g \<longrightarrow> map_of (grps st) i = Some g \<or> g \<in> glang i r"
  proof (rule star_loop_rel [where f = "m r" and n = "length (aft st)"
        and R = "\<lambda>a b. map_of (grps b) i = Some g \<longrightarrow> map_of (grps a) i = Some g \<or> g \<in> glang i r"])
    show "st' \<in> set (star_loop (length (aft st)) (m r) st)"
      using Star.prems by simp
  qed (use Star.IH in blast)+
  then show ?case using Star.prems by simp
next
  case (LazyStar r)
  have "map_of (grps st') i = Some g \<longrightarrow> map_of (grps st) i = Some g \<or> g \<in> glang i r"
  proof (rule lazy_loop_rel [where f = "m r" and n = "length (aft st)"
        and R = "\<lambda>a b. map_of (grps b) i = Some g \<longrightarrow> map_of (grps a) i = Some g \<or> g \<in> glang i r"])
    show "st' \<in> set (lazy_loop (length (aft st)) (m r) st)"
      using LazyStar.prems by simp
  qed (use LazyStar.IH in blast)+
  then show ?case using LazyStar.prems by simp
next
  case (Grp j r)
  from Grp.prems obtain t where t: "t \<in> set (m r st)"
    "st' = (bef t, aft t, (j, consumed (bef st) (bef t)) # grps t)" by auto
  from m_moves [OF t(1)] obtain w where w: "moves st w t" "w \<in> lang r" by blast
  show ?case
  proof (cases "i = j")
    case True
    then have "g = w"
      using Grp.prems(2) t(2) consumed_moves [OF w(1)] by (simp add: grps_def)
    then show ?thesis using w(2) True by simp
  next
    case False
    then have "map_of (grps t) i = Some g"
      using Grp.prems(2) t(2) by (simp add: grps_def)
    from Grp.IH [OF t(1) this] show ?thesis by auto
  qed
next
  case WordB
  then show ?case by (auto split: if_splits)
next
  case Eol
  then show ?case by (auto split: if_splits)
qed

lemma m_keeps_groups:
  "st' \<in> set (m r st) \<Longrightarrow> map_of (grps st) i \<noteq> None \<Longrightarrow> map_of (grps st') i \<noteq> None"
proof (induction r arbitrary: st st')
  case (Chr p)
  then show ?case
    by (auto simp: grps_def split: list.splits if_splits)
next
  case (Seq r1 r2)
  from Seq.prems obtain t where t: "t \<in> set (m r1 st)" "st' \<in> set (m r2 t)" by auto
  show ?case using Seq.IH(2) [OF t(2)] Seq.IH(1) [OF t(1)] Seq.prems(2) by blast
next
  case (Star r)
  have "map_of (grps st) i \<noteq> None \<longrightarrow> map_of (grps st') i \<noteq> None"
  proof (rule star_loop_rel [where f = "m r" and n = "length (aft st)"
        and R = "\<lambda>a b. map_of (grps a) i \<noteq> None \<longrightarrow> map_of (grps b) i \<noteq> None"])
    show "st' \<in> set (star_loop (length (aft st)) (m r) st)"
      using Star.prems by simp
  qed (use Star.IH in blast)+
  then show ?case using Star.prems by simp
next
  case (LazyStar r)
  have "map_of (grps st) i \<noteq> None \<longrightarrow> map_of (grps st') i \<noteq> None"
  proof (rule lazy_loop_rel [where f = "m r" and n = "length (aft st)"
        and R = "\<lambda>a b. map_of (grps a) i \<noteq> None \<longrightarrow> map_of (grps b) i \<noteq> None"])
    show "st' \<in> set (lazy_loop (length (aft st)) (m r) st)"
      using LazyStar.prems by simp
  qed (use LazyStar.IH in blast)+
  then show ?case using LazyStar.prems by simp
next
  case (Grp j r)
  from Grp.prems obtain t where t: "t \<in> set (m r st)"
    "st' = (bef t, aft t, (j, consumed (bef st) (bef t)) # grps t)" by auto
  from Grp.IH [OF t(1) Grp.prems(2)] t(2) show ?case by (simp add: grps_def)
qed (auto split: if_splits)

lemma m_sets_group:
  "st' \<in> set (m r st) \<Longrightarrow> sets_group i r \<Longrightarrow> map_of (grps st') i \<noteq> None"
proof (induction r arbitrary: st st')
  case (Seq r1 r2)
  from Seq.prems obtain t where t: "t \<in> set (m r1 st)" "st' \<in> set (m r2 t)" by auto
  show ?case
  proof (cases "sets_group i r1")
    case True
    from Seq.IH(1) [OF t(1) True] m_keeps_groups [OF t(2)] show ?thesis by blast
  next
    case False
    then have "sets_group i r2" using Seq.prems(2) by simp
    from Seq.IH(2) [OF t(2) this] show ?thesis .
  qed
next
  case (Alt r1 r2)
  from Alt.prems(1) consider "st' \<in> set (m r1 st)" | "st' \<in> set (m r2 st)" by auto
  then show ?case
  proof cases
    case 1
    from Alt.IH(1) [OF 1] Alt.prems(2) show ?thesis by simp
  next
    case 2
    from Alt.IH(2) [OF 2] Alt.prems(2) show ?thesis by simp
  qed
next
  case (Grp j r)
  from Grp.prems obtain t where t: "t \<in> set (m r st)"
    "st' = (bef t, aft t, (j, consumed (bef st) (bef t)) # grps t)" by auto
  show ?case
  proof (cases "i = j")
    case True
    then show ?thesis using t(2) by (simp add: grps_def)
  next
    case False
    then have "sets_group i r" using Grp.prems(2) by simp
    from Grp.IH [OF t(1) this] False t(2) show ?thesis by (simp add: grps_def)
  qed
qed simp_all

lemma finditer_from_hd:
  "mt \<in> set (finditer_from r b a) \<Longrightarrow>
     \<exists>b' a' st rest. m r (b', a', []) = st # rest \<and> mt = (consumed b' (bef st), grps st)"
proof (induction a arbitrary: b rule: length_induct)
  case (1 a)
  show ?case
  proof (cases "m r (b, a, [])")
    case Nil
    then obtain c cs where a: "a = c # cs" and mem: "mt \<in> set (finditer_from r (c # b) cs)"
      using "1.prems" by (subst (asm) finditer_from.simps) (auto split: list.splits)
    from "1.IH" a mem show ?thesis by auto
  next
    case (Cons st rest)
    from "1.prems" Cons consider "mt = (consumed b (bef st), grps st)"
      | "length (aft st) < length a" "mt \<in> set (finditer_from r (bef st) (aft st))"
      | c cs where "a = c # cs" "mt \<in> set (finditer_from r (c # b) cs)"
      by (subst (asm) finditer_from.simps) (auto split: list.splits if_splits)
    then show ?thesis
    proof cases
      case 1
      then show ?thesis using Cons by blast
    next
      case 2
      then show ?thesis using "1.IH" by blast
    next
      case 3
      then show ?thesis using "1.IH" by auto
    qed
  qed
qed

lemma re_findall_group1:
  assumes "s \<in> set (re_findall r text)" and "ngroups r \<noteq> 0" and "sets_group 1 r"
  shows "s \<in> glang 1 r"
proof -
  from assms(1,2) obtain mt where mt: "mt \<in> set (finditer_from r [] text)"
    "s = (case group mt 1 of None \<Rightarrow> [] | Some g \<Rightarrow> g)"
    by (auto simp: re_findall_def)
  from finditer_from_hd [OF mt(1)] obtain b' a' st rest where
    st: "m r (b', a', []) = st # rest" "mt = (consumed b' (bef st), grps st)" by blast
  then have mem: "st \<in> set (m r (b', a', []))" by simp
  from m_sets_group [OF mem assms(3)] obtain g where g: "map_of (grps st) 1 = Some g" by auto
  from m_groups [OF mem g] have "g \<in> glang 1 r" by (simp add: grps_def)
  moreover have "s = g" using mt(2) st(2) g by (simp add: group_def)
  ultimately show ?thesis by simp
qed

lemma search_from_hd:
  "search_from r b a = Some mt \<Longrightarrow>
     \<exists>b' p a' st rest. a = p @ a' \<and> m r (b', a', []) = st # rest
        \<and> mt = (consumed b' (bef st), grps st)"
proof (induction a arbitrary: b)
  case Nil
  show ?case
  proof (cases "m r (b, [], [])")
    case Nil
    then show ?thesis using Nil.prems by simp
  next
    case (Cons st rest)
    then have "[] = [] @ [] \<and> m r (b, [], []) = st # rest
        \<and> mt = (consumed b (bef st), grps st)" using Nil.prems by simp
    then show ?thesis by - (intro exI, assumption)
  qed
next
  case step: (Cons c cs)
  show ?case
  proof (cases "m r (b, c # cs, [])")
    case Nil
    then have "search_from r (c # b) cs = Some mt" using step.prems by simp
    from step.IH [OF this] obtain b' p a' st rest where
      "cs = p @ a'" "m r (b', a', []) = st # rest" "mt = (consumed b' (bef st), grps st)"
      by blast
    then have "c # cs = (c # p) @ a' \<and> m r (b', a', []) = st # rest
        \<and> mt = (consumed b' (bef st), grps st)" by simp
    then show ?thesis by - (intro exI, assumption)
  next
    case (Cons st rest)
    then have "c # cs = [] @ (c # cs) \<and> m r (b, c # cs, []) = st # rest
        \<and> mt = (consumed b (bef st), grps st)" using step.prems by simp
    then show ?thesis by - (intro exI, assumption)
  qed
qed

lemma re_search_group1:
  assumes "re_search r text = Some mt" and "sets_group 1 r"
  shows "\<exists>w. group_str mt 1 \<in> glang 1 r \<and> w \<in> lang r \<and> set w \<subseteq> set text"
proof -
  from assms(1) have "search_from r [] text = Some mt" by (simp add: re_search_def)
  from search_from_hd [OF this] obtain b' p a' st rest where
    st: "text = p @ a'" "m r (b', a', []) = st # rest" "mt = (consumed b' (bef st), grps st)"
    by - (elim exE conjE)
  then have mem: "st \<in> set (m r (b', a', []))" by simp
  from m_sets_group [OF mem assms(2)] obtain g where g: "map_of (grps st) 1 = Some g" by auto
  from m_groups [OF mem g] have gl: "g \<in> glang 1 r" by (simp add: grps_def)
  have gs: "group_str mt 1 = g" using st(3) g by (simp add: group_def group_str_def)
  from m_moves [OF mem] obtain w where w: "moves (b', a', []) w st" "w \<in> lang r" by blast
  then have "set w \<subseteq> set text" using st(1) by (auto simp: moves_def aft_def)
  with gl gs w(2) show ?thesis by auto
qed

lemma star_loop_run_hd:
  assumes step: "\<And>b c cs g. f (b, c # cs, g) = (if p c then [(c # b, cs, g)] else [])"
    and stop: "\<And>b g. f (b, [], g) = []"
  shows "length a \<le> n \<Longrightarrow>
     \<exists>rest. star_loop n f (b, a, g) = (rev (takeWhile p a) @ b, dropWhile p a, g) # rest"
proof (induction n arbitrary: a b)
  case 0
  then show ?case by simp
next
  case (Suc n)
  show ?case
  proof (cases a)
    case Nil
    then show ?thesis by (simp add: stop)
  next
    case (Cons c cs)
    show ?thesis
    proof (cases "p c")
      case True
      from Suc.prems Cons have "length cs \<le> n" by simp
      from Suc.IH [OF this, of "c # b"] obtain rest where
        "star_loop n f (c # b, cs, g)
           = (rev (takeWhile p cs) @ c # b, dropWhile p cs, g) # rest" by blast
      then show ?thesis using Cons True by (simp add: step aft_def)
    next
      case False
      then show ?thesis using Cons by (simp add: step)
    qed
  qed
qed

lemma m_Chr_Cons: "m (Chr p) (b, c # cs, g) = (if p c then [(c # b, cs, g)] else [])"
  by (simp add: aft_def bef_def grps_def)

lemma m_Chr_Nil: "m (Chr p) (b, [], g) = []"
  by (simp add: aft_def)

lemma m_Plus_Chr_Nil: "m (Plus (Chr p)) (b, [], g) = []"
  by (simp add: Plus_def m_Chr_Nil del: m.simps(1))

lemma m_Plus_Chr_not: "\<not> p c \<Longrightarrow> m (Plus (Chr p)) (b, c # cs, g) = []"
  by (simp add: Plus_def m_Chr_Cons del: m.simps(1))

lemma m_Plus_Chr_hd:
  assumes "p c"
  shows "\<exists>b' rest. m (Plus (Chr p)) (b, c # cs, g) = (b', dropWhile p cs, g) # rest"
proof -
  have "\<exists>rest. star_loop (length cs) (m (Chr p)) (c # b, cs, g)
       = (rev (takeWhile p cs) @ c # b, dropWhile p cs, g) # rest"
    by (rule star_loop_run_hd [where p = p]) (simp_all add: m_Chr_Cons m_Chr_Nil del: m.simps(1))
  then obtain rest where
    "star_loop (length cs) (m (Chr p)) (c # b, cs, g)
       = (rev (takeWhile p cs) @ c # b, dropWhile p cs, g) # rest" by blast
  then have "m (Plus (Chr p)) (b, c # cs, g)
       = (rev (takeWhile p cs) @ c # b, dropWhile p cs, g) # rest"
    using assms by (simp add: Plus_def m_Chr_Cons aft_def del: m.simps(1))
  then show ?thesis by - (intro exI, assumption)
qed

lemma sub_space_Nil: "sub_from (Plus space) repl b [] = []"
  by (subst sub_from.simps) (simp add: m_Plus_Chr_Nil del: m.simps)

lemma sub_space_not:
  "\<not> is_space c \<Longrightarrow>
     sub_from (Plus space) repl b (c # cs) = c # sub_from (Plus space) repl (c # b) cs"
  by (subst sub_from.simps) (simp add: m_Plus_Chr_not del: m.simps)

lemma sub_space_run:
  assumes "is_space c"
  shows "\<exists>b'. sub_from (Plus space) repl b (c # cs)
           = repl @ sub_from (Plus space) repl b' (dropWhile is_space cs)"
proof -
  from m_Plus_Chr_hd [where p = is_space and c = c and b = b and cs = cs and g = "[]", OF assms]
  obtain b' rest where
    h: "m (Plus space) (b, c # cs, []) = (b', dropWhile is_space cs, []) # rest" by blast
  have "length (dropWhile is_space cs) < length (c # cs)"
    by (simp add: length_dropWhile_le less_Suc_eq_le)
  then have "sub_from (Plus space) repl b (c # cs)
           = repl @ sub_from (Plus space) repl b' (dropWhile is_space cs)"
    by (subst sub_from.simps) (simp add: h aft_def bef_def del: m.simps)
  then show ?thesis by - (intro exI, assumption)
qed

lemma is_space_blank: "is_space CHR '' ''"
  by (simp add: is_space_def code_def)

lemma py_in_two_blanks_Cons:
  "py_in ''  '' (x # r) = ((x = CHR '' '' \<and> r \<noteq> [] \<and> hd r = CHR '' '') \<or> py_in ''  '' r)"
  by (cases r) auto

lemma collapsed_Nil: "collapsed [] []"
  by (simp add: collapsed_def)

lemma collapsed_keep:
  assumes "\<not> is_space c" and "collapsed cs r"
  shows "collapsed (c # cs) (c # r)"
proof -
  have ne: "c \<noteq> CHR '' ''" using assms(1) is_space_blank by auto
  have a: "\<forall>x \<in> set (c # r). x = CHR '' '' \<or> (x \<in> set (c # cs) \<and> \<not> is_space x)"
    using assms by (auto simp: collapsed_def)
  have b: "\<not> py_in ''  '' (c # r)"
    using assms(2) ne by (simp add: py_in_two_blanks_Cons collapsed_def del: py_in.simps)
  show ?thesis using a b assms(1) by (simp add: collapsed_def del: py_in.simps)
qed

lemma collapsed_run:
  assumes "is_space c" and "collapsed (dropWhile is_space cs) r"
  shows "collapsed (c # cs) (CHR '' '' # r)"
proof -
  have sub: "set (dropWhile is_space cs) \<subseteq> set cs"
    using set_dropWhileD by fastforce
  have a: "\<forall>x \<in> set (CHR '' '' # r). x = CHR '' '' \<or> (x \<in> set (c # cs) \<and> \<not> is_space x)"
    using assms(2) sub by (auto simp: collapsed_def)
  have hdr: "r \<noteq> [] \<Longrightarrow> hd r \<noteq> CHR '' ''"
  proof (cases "dropWhile is_space cs")
    case Nil
    from assms(2) have "r = []" unfolding collapsed_def Nil by simp
    then show "r \<noteq> [] \<Longrightarrow> hd r \<noteq> CHR '' ''" by simp
  next
    case (Cons d ds)
    have nd: "\<not> is_space d" using hd_dropWhile [of is_space cs] Cons by simp
    from assms(2) have "hd r = d" unfolding collapsed_def Cons using nd by simp
    moreover have "d \<noteq> CHR '' ''" using nd is_space_blank by auto
    ultimately show "hd r \<noteq> CHR '' ''" by simp
  qed
  have b: "\<not> py_in ''  '' (CHR '' '' # r)"
    using assms(2) hdr by (auto simp: py_in_two_blanks_Cons collapsed_def simp del: py_in.simps)
  show ?thesis using a b assms(1) by (simp add: collapsed_def del: py_in.simps)
qed

lemma sub_space_collapsed: "collapsed a (sub_from (Plus space) '' '' b a)"
proof (induction a arbitrary: b rule: length_induct)
  case (1 a)
  show ?case
  proof (cases a)
    case Nil
    then show ?thesis by (simp add: sub_space_Nil collapsed_Nil)
  next
    case (Cons c cs)
    show ?thesis
    proof (cases "is_space c")
      case False
      have "collapsed cs (sub_from (Plus space) '' '' (c # b) cs)"
        using "1.IH" Cons by simp
      from collapsed_keep [OF False this] show ?thesis
        unfolding Cons sub_space_not [OF False] .
    next
      case True
      from sub_space_run [OF True, of "'' ''" b cs] obtain b' where
        eq: "sub_from (Plus space) '' '' b (c # cs)
               = '' '' @ sub_from (Plus space) '' '' b' (dropWhile is_space cs)" by blast
      have "length (dropWhile is_space cs) < length a"
        using Cons by (simp add: length_dropWhile_le less_Suc_eq_le)
      then have "collapsed (dropWhile is_space cs)
                       (sub_from (Plus space) '' '' b' (dropWhile is_space cs))"
        using "1.IH" by blast
      from collapsed_run [OF True this] show ?thesis
        unfolding Cons eq by simp
    qed
  qed
qed

lemma lang_chars: "w \<in> lang r \<Longrightarrow> c \<in> set w \<Longrightarrow> chars r c"
proof (induction r arbitrary: w)
  case (Star r)
  from Star.prems obtain ws x where "set ws \<subseteq> lang r" "x \<in> set ws" "c \<in> set x" by auto
  then have "x \<in> lang r" "c \<in> set x" by auto
  from Star.IH [OF this] show ?case by simp
next
  case (LazyStar r)
  from LazyStar.prems obtain ws x where "set ws \<subseteq> lang r" "x \<in> set ws" "c \<in> set x"
    by auto
  then have "x \<in> lang r" "c \<in> set x" by auto
  from LazyStar.IH [OF this] show ?case by simp
next
  case (Seq r1 r2)
  from Seq.prems obtain u v where "u \<in> lang r1" "v \<in> lang r2" "c \<in> set u \<or> c \<in> set v"
    by auto
  then show ?case using Seq.IH by auto
qed auto

lemma lang_tail_free:
  assumes "w \<in> lang (Seq (Seq (Chr p) r1) r2)" and "\<not> chars r1 c" and "\<not> chars r2 c"
  shows "c \<notin> set (tl w)"
proof -
  from assms(1) obtain x u v where w: "w = ([x] @ u) @ v" "u \<in> lang r1" "v \<in> lang r2"
    by auto
  then have "tl w = u @ v" by simp
  then show ?thesis using w(2,3) assms(2,3) lang_chars by fastforce
qed

lemma match_stays_before:
  assumes lang: "\<And>w. w \<in> lang r \<Longrightarrow> c \<notin> set (tl w)"
    and st: "st \<in> set (m r (b, q @ c # s, g))" and q: "q \<noteq> []"
  shows "\<exists>q'. aft st = q' @ c # s \<and> length q' \<le> length q"
proof -
  from m_moves [OF st] obtain w where w: "moves (b, q @ c # s, g) w st" "w \<in> lang r" by blast
  then have eq: "q @ c # s = w @ aft st" by (simp add: moves_def aft_def)
  have "length w \<le> length q"
  proof (rule ccontr)
    assume "\<not> length w \<le> length q"
    then have "length q < length w" by simp
    then have "w ! length q = (q @ c # s) ! length q"
      using eq by (simp add: nth_append)
    then have "w ! length q = c" by simp
    moreover have "w ! length q \<in> set (tl w)"
      using \<open>length q < length w\<close> q
      by (cases w; cases q) (auto simp: nth_Cons')
    ultimately show False using lang [OF w(2)] by simp
  qed
  then have "aft st = drop (length w) q @ c # s"
    using eq by (metis append_eq_conv_conj drop_append diff_is_0_eq drop0)
  then have "aft st = drop (length w) q @ c # s \<and> length (drop (length w) q) \<le> length q"
    by simp
  then show ?thesis by - (intro exI, assumption)
qed

lemma finditer_reach:
  assumes here: "\<And>b. \<exists>st rest. m r (b, c # s, []) = st # rest
                    \<and> consumed b (bef st) = w \<and> grps st = g"
    and lang: "\<And>w. w \<in> lang r \<Longrightarrow> c \<notin> set (tl w)"
  shows "(w, g) \<in> set (finditer_from r b (pre @ c # s))"
proof (induction pre arbitrary: b rule: length_induct)
  case (1 pre)
  show ?case
  proof (cases pre)
    case Nil
    from here [of b] obtain st rest where
      "m r (b, c # s, []) = st # rest" "consumed b (bef st) = w" "grps st = g" by blast
    then show ?thesis unfolding Nil by (subst finditer_from.simps) simp
  next
    case (Cons x xs)
    have skip: "(w, g) \<in> set (finditer_from r (x # b) (xs @ c # s))"
      using "1.IH" Cons by simp
    show ?thesis
    proof (cases "m r (b, pre @ c # s, [])")
      case Nil
      then show ?thesis using skip unfolding Cons by (subst finditer_from.simps) simp
    next
      case hit: (Cons st rest)
      then have "st \<in> set (m r (b, pre @ c # s, []))" by simp
      from match_stays_before [OF lang this] Cons obtain q' where
        q': "aft st = q' @ c # s" "length q' \<le> length pre" by auto
      show ?thesis
      proof (cases "length (aft st) < length (pre @ c # s)")
        case True
        then have "length q' < length pre" using q'(1) by simp
        then have "(w, g) \<in> set (finditer_from r (bef st) (q' @ c # s))"
          using "1.IH" by blast
        then show ?thesis using hit True q'(1)
          by (subst finditer_from.simps) simp
      next
        case False
        then show ?thesis using hit skip unfolding Cons
          by (subst finditer_from.simps) simp
      qed
    qed
  qed
qed

lemma re_findall_reach:
  assumes here: "\<And>b. \<exists>st rest. m r (b, c # s, []) = st # rest
                    \<and> consumed b (bef st) = w \<and> grps st = [(1, g)]"
    and lang: "\<And>w. w \<in> lang r \<Longrightarrow> c \<notin> set (tl w)"
    and ng: "ngroups r \<noteq> 0"
  shows "g \<in> set (re_findall r (pre @ c # s))"
proof -
  from finditer_reach [of r c s w "[(1, g)]", OF here lang]
  have mem: "(w, [(1, g)]) \<in> set (finditer_from r [] (pre @ c # s))" by blast
  show ?thesis
    unfolding re_findall_def set_map image_iff
    by (rule bexI [OF _ mem]) (simp add: ng group_def)
qed

subsection \<open>Matches consume text\<close>

text \<open>
  No pattern of the program matches the empty word, so every match is shorter than the text
  it started on: the branches of \<open>finditer_from\<close> and \<open>sub_from\<close> for an empty match are
  never taken.
\<close>

lemma lang_nullable: "[] \<in> lang r \<Longrightarrow> nullable r"
  by (induction r) auto

lemma all_patterns_consume: "list_all (\<lambda>r. \<not> nullable r) all_patterns"
  by code_simp

lemma match_consumes:
  assumes "r \<in> set all_patterns" and "st \<in> set (m r (b, a, g))"
  shows "length (aft st) < length a"
proof -
  from m_moves [OF assms(2)] obtain w where w: "moves (b, a, g) w st" "w \<in> lang r" by blast
  have "\<not> nullable r" using assms(1) all_patterns_consume by (simp add: list_all_iff)
  then have "w \<noteq> []" using w(2) lang_nullable by blast
  moreover have "a = w @ aft st" using w(1) by (simp add: moves_def aft_def)
  ultimately show ?thesis by (metis length_append length_greater_0_conv less_add_same_cancel2)
qed

subsection \<open>Literals under IGNORECASE\<close>

lemma code_inj: "code a = code b \<Longrightarrow> a = b"
  by (simp add: code_def)

lemma code_char_of: "n < 256 \<Longrightarrow> code (char_of n) = n"
  by (simp add: code_def)

lemma code_lt: "code c < 256"
  by (simp add: code_def)

lemma code_lower_shift:
  "is_upper_az c \<or> (192 \<le> code c \<and> code c \<le> 222 \<and> code c \<noteq> 215)
     \<Longrightarrow> code (py_lower_char c) = code c + 32"
  using code_lt [of c] by (auto simp: py_lower_char_def is_upper_az_def code_char_of)

lemma lower_keep:
  "\<not> (is_upper_az c \<or> (192 \<le> code c \<and> code c \<le> 222 \<and> code c \<noteq> 215))
     \<Longrightarrow> py_lower_char c = c"
  by (auto simp: py_lower_char_def)

lemma code_upper_shift:
  "is_lower_az d \<or> (224 \<le> code d \<and> code d \<le> 254 \<and> code d \<noteq> 247)
     \<Longrightarrow> code (py_upper_char d) = code d - 32"
  using code_lt [of d] by (auto simp: py_upper_char_def is_lower_az_def code_char_of)

lemma upper_keep:
  "\<not> (is_lower_az d \<or> (224 \<le> code d \<and> code d \<le> 254 \<and> code d \<noteq> 247))
     \<Longrightarrow> py_upper_char d = d"
  by (auto simp: py_upper_char_def)

lemma lower_of_upper_az:
  assumes "is_upper_az l" and "py_lower_char c = l"
  shows False
proof (cases "is_upper_az c \<or> (192 \<le> code c \<and> code c \<le> 222 \<and> code c \<noteq> 215)")
  case True
  from code_lower_shift [OF True] assms show False
    using True by (auto simp: is_upper_az_def)
next
  case False
  from lower_keep [OF False] assms False show False by simp
qed

lemma code_lower_cases: "code (py_lower_char c) = code c \<or> code (py_lower_char c) = code c + 32"
  using code_lower_shift [of c] lower_keep [of c] by fastforce

lemma ic_literal_upper:
  assumes "is_upper_az l"
  shows "ic (\<lambda>x. x = l) c \<longleftrightarrow> (code c = code l \<or> code c = code l + 32)"
proof
  assume "ic (\<lambda>x. x = l) c"
  then have 2: "py_upper_char (py_lower_char c) = l"
    using lower_of_upper_az [OF assms] by (auto simp: ic_def)
  let ?d = "py_lower_char c"
  have sh: "is_lower_az ?d \<or> (224 \<le> code ?d \<and> code ?d \<le> 254 \<and> code ?d \<noteq> 247)"
  proof (rule ccontr)
    assume "\<not> ?thesis"
    from upper_keep [OF this] 2 have "py_lower_char c = l" by simp
    with lower_of_upper_az [OF assms] show False .
  qed
  from code_upper_shift [OF sh] 2 have "code l = code ?d - 32" by simp
  moreover have "65 \<le> code l" "code l \<le> 90" using assms by (simp_all add: is_upper_az_def)
  ultimately have "code ?d = code l + 32" by simp
  then show "code c = code l \<or> code c = code l + 32"
    using code_lower_cases [of c] by auto
next
  have l: "65 \<le> code l" "code l \<le> 90" using assms by (simp_all add: is_upper_az_def)
  assume "code c = code l \<or> code c = code l + 32"
  then have d: "code (py_lower_char c) = code l + 32"
  proof
    assume "code c = code l"
    then have "is_upper_az c" using l by (simp add: is_upper_az_def)
    then show ?thesis using code_lower_shift [of c] \<open>code c = code l\<close> by simp
  next
    assume c: "code c = code l + 32"
    then have "py_lower_char c = c"
      using l by (intro lower_keep) (simp add: is_upper_az_def)
    then show ?thesis using c by simp
  qed
  then have "is_lower_az (py_lower_char c)" using l by (simp add: is_lower_az_def)
  then have "code (py_upper_char (py_lower_char c)) = code l"
    using code_upper_shift [of "py_lower_char c"] d by simp
  then have "py_upper_char (py_lower_char c) = l" by (rule code_inj)
  then show "ic (\<lambda>x. x = l) c" by (simp add: ic_def)
qed

subsection \<open>Texts without the first character of a pattern\<close>

lemma lang_first1: "w \<in> lang (Seq (Chr p) r2) \<Longrightarrow> w \<noteq> [] \<and> p (hd w)"
  by auto

lemma lang_first2: "w \<in> lang (Seq (Seq (Chr p) r1) r2) \<Longrightarrow> w \<noteq> [] \<and> p (hd w)"
  by auto

lemma no_match_first:
  assumes first: "\<And>w. w \<in> lang r \<Longrightarrow> w \<noteq> [] \<and> p (hd w)"
    and a: "a = [] \<or> \<not> p (hd a)"
  shows "m r (b, a, g) = []"
proof (rule ccontr)
  assume "m r (b, a, g) \<noteq> []"
  then obtain st where "st \<in> set (m r (b, a, g))"
    by (cases "m r (b, a, g)") auto
  from m_moves [OF this] obtain w where w: "moves (b, a, g) w st" "w \<in> lang r" by blast
  from first [OF w(2)] have "w \<noteq> []" "p (hd w)" by simp_all
  moreover have "a = w @ aft st" using w(1) by (simp add: moves_def aft_def)
  ultimately have "a \<noteq> [] \<and> p (hd a)" by simp
  with a show False by simp
qed

lemma finditer_none:
  assumes first: "\<And>w. w \<in> lang r \<Longrightarrow> w \<noteq> [] \<and> p (hd w)"
  shows "\<forall>c \<in> set a. \<not> p c \<Longrightarrow> finditer_from r b a = []"
proof (induction a arbitrary: b)
  case Nil
  have "m r (b, [], []) = []" by (rule no_match_first [where p = p, OF first]) simp_all
  then show ?case by (subst finditer_from.simps) simp
next
  case (Cons x xs)
  have "m r (b, x # xs, []) = []"
    using Cons.prems by (intro no_match_first [where p = p, OF first]) simp_all
  moreover have "finditer_from r (x # b) xs = []" using Cons by simp
  ultimately show ?case by (subst finditer_from.simps) simp
qed

lemma finditer_skip:
  assumes first: "\<And>w. w \<in> lang r \<Longrightarrow> w \<noteq> [] \<and> p (hd w)"
  shows "\<forall>c \<in> set pre. \<not> p c \<Longrightarrow>
           finditer_from r b (pre @ s) = finditer_from r (rev pre @ b) s"
proof (induction pre arbitrary: b)
  case Nil
  then show ?case by simp
next
  case (Cons x xs)
  have "m r (b, x # xs @ s, []) = []"
    using Cons.prems by (intro no_match_first [where p = p, OF first]) simp_all
  moreover have "finditer_from r (x # b) (xs @ s) = finditer_from r (rev xs @ x # b) s"
    using Cons by simp
  ultimately show ?case by (subst finditer_from.simps) simp
qed

lemma finditer_single:
  assumes first: "\<And>w. w \<in> lang r \<Longrightarrow> w \<noteq> [] \<and> p (hd w)"
    and here: "\<And>b. \<exists>rest. m r (b, s @ post, []) = (rev s @ b, post, g) # rest"
    and s: "s \<noteq> []"
    and pre: "\<forall>c \<in> set pre. \<not> p c" and post: "\<forall>c \<in> set post. \<not> p c"
  shows "finditer_from r b (pre @ s @ post) = [(s, g)]"
proof -
  from here [of "rev pre @ b"] obtain rest where
    h: "m r (rev pre @ b, s @ post, []) = (rev s @ rev pre @ b, post, g) # rest" by blast
  have "finditer_from r (rev pre @ b) (s @ post)
          = (s, g) # finditer_from r (rev s @ rev pre @ b) post"
    using s by (subst finditer_from.simps) (simp add: h consumed_def bef_def aft_def grps_def)
  then show ?thesis
    using finditer_skip [where p = p and r = r and pre = pre and b = b and s = "s @ post",
        OF first pre]
      finditer_none [where p = p and r = r and a = post, OF first post] by simp
qed

section \<open>The amount cascade and its fallback gate\<close>

lemmas amount_eval =
  py_float_def is_digit_def code_def py_count_def digits_value_def digit_val_def frac_len_def
  py_replace_def cop_candidate_def usd_candidate_def dollar_candidate_def general_candidate_def
  dollar_amount_str_def py_split_def

lemma append_matches_eq: "append_matches body ms acc = acc @ List.map_filter body ms"
  unfolding append_matches_def
  by (induction ms arbitrary: acc) (auto simp: List.map_filter_simps split: option.splits)

lemma extract_amounts_eq:
  "extract_amounts text bs =
     (if priority1 text @ priority2 text @ priority3 (is_colombian_bank bs) text = []
      then priority4 (is_colombian_bank bs) text
      else priority1 text @ priority2 text @ priority3 (is_colombian_bank bs) text)"
  by (simp add: extract_amounts_def Let_def append_matches_eq priority1_def priority2_def
        priority3_def priority4_def)

text \<open>
  The numerals the four amount patterns capture consist of digits, periods and commas, which
  are the strings \<open>py_float\<close> is defined for once the commas are replaced.
\<close>

lemma glang_amount_chars:
  assumes "r \<in> {cop_pattern, usd_pattern, dollar_sign_pattern, general_cop}"
    and "s \<in> glang 1 r"
  shows "\<forall>c \<in> set s. is_digit c \<or> is_sep c"
proof -
  let ?num = "\<lambda>sep1 sep2 rep. Seq (between 1 3 digit)
              (Seq (rep (Seq (Chr sep1) (times 3 digit)))
                   (Opt (Seq (Chr sep2) (times 2 digit))))"
  have cs: "chars (?num sep1 sep2 rep) c \<Longrightarrow> is_digit c \<or> sep1 c \<or> sep2 c"
    if "\<And>x. chars (rep x) = chars x" for sep1 sep2 rep c
    using that by (auto simp: between_def Opt_def eval_nat_numeral)
  from assms obtain sep1 sep2 rep where
    g: "s \<in> lang (?num sep1 sep2 rep)" and rep: "\<And>x. chars (rep x) = chars x"
    and seps: "\<And>c. sep1 c \<or> sep2 c \<Longrightarrow> is_sep c"
  proof (elim insertE emptyE)
    assume "r = cop_pattern"
    with assms(2) have "s \<in> lang (?num (\<lambda>x. x = CHR ''.'') (\<lambda>x. x = CHR '','') Star)"
      by (simp add: cop_pattern_def liti_def between_def Opt_def eval_nat_numeral)
    then show ?thesis by (rule that) (auto simp: is_sep_def)
  next
    assume "r = usd_pattern"
    with assms(2) have "s \<in> lang (?num (\<lambda>x. x = CHR '','') (\<lambda>x. x = CHR ''.'') Star)"
      by (simp add: usd_pattern_def liti_def between_def Opt_def eval_nat_numeral)
    then show ?thesis by (rule that) (auto simp: is_sep_def)
  next
    assume "r = dollar_sign_pattern"
    with assms(2) have "s \<in> lang (?num is_sep is_sep Star)"
      by (simp add: dollar_sign_pattern_def between_def Opt_def eval_nat_numeral)
    then show ?thesis by (rule that) auto
  next
    assume "r = general_cop"
    with assms(2) have "s \<in> lang (?num (\<lambda>x. x = CHR ''.'') (\<lambda>x. x = CHR '','') Plus)"
      by (simp add: general_cop_def between_def Opt_def Plus_def eval_nat_numeral)
    then show ?thesis by (rule that) (auto simp: is_sep_def Plus_def)
  qed
  show ?thesis
  proof
    fix c assume "c \<in> set s"
    from lang_chars [OF g this] cs [OF rep] seps show "is_digit c \<or> is_sep c" by blast
  qed
qed

text \<open>
  Claim C1. Rules 1 to 3 always run and every candidate they produce is kept, in rule order.
  The fallback rule 4 runs exactly when rules 1 to 3 produced nothing: if they produced a
  candidate the output is their candidates and nothing else, and if they produced none the
  output is what the fallback rule finds, which may be nothing.
\<close>

theorem cascade_fallback_gate:
  "(priority1 text @ priority2 text @ priority3 (is_colombian_bank bs) text \<noteq> [] \<longrightarrow>
      extract_amounts text bs
        = priority1 text @ priority2 text @ priority3 (is_colombian_bank bs) text)
   \<and> (priority1 text @ priority2 text @ priority3 (is_colombian_bank bs) text = [] \<longrightarrow>
      extract_amounts text bs = priority4 (is_colombian_bank bs) text)"
  by (simp add: extract_amounts_eq)

theorem cascade_fallback_gate_witness:
  "priority1 ''COP 1.000 y 2.000'' @ priority2 ''COP 1.000 y 2.000''
     @ priority3 (is_colombian_bank None) ''COP 1.000 y 2.000'' \<noteq> []
   \<and> extract_amounts ''COP 1.000 y 2.000'' None = [\<lparr>amount = 1000, currency = COP\<rparr>]
   \<and> priority1 ''total 2.000'' @ priority2 ''total 2.000''
     @ priority3 (is_colombian_bank None) ''total 2.000'' = []
   \<and> extract_amounts ''total 2.000'' None = [\<lparr>amount = 2000, currency = UNKNOWN\<rparr>]"
proof -
  have f1: "re_findall cop_pattern ''COP 1.000 y 2.000'' = [''1.000'']"
    by code_simp
  have f2: "re_findall usd_pattern ''COP 1.000 y 2.000'' = []"
    by code_simp
  have f3: "re_findall dollar_sign_pattern ''COP 1.000 y 2.000'' = []"
    by code_simp
  have g1: "re_findall cop_pattern ''total 2.000'' = []"
    by code_simp
  have g2: "re_findall usd_pattern ''total 2.000'' = []"
    by code_simp
  have g3: "re_findall dollar_sign_pattern ''total 2.000'' = []"
    by code_simp
  have g4: "re_findall general_cop ''total 2.000'' = [''2.000'']"
    by code_simp
  have p1: "priority1 ''COP 1.000 y 2.000'' = [\<lparr>amount = 1000, currency = COP\<rparr>]"
    by (simp add: priority1_def f1 amount_eval)
  have p2: "priority2 ''COP 1.000 y 2.000'' = []"
    by (simp add: priority2_def f2 amount_eval)
  have p3: "priority3 (is_colombian_bank None) ''COP 1.000 y 2.000'' = []"
    by (simp add: priority3_def f3 amount_eval)
  have q1: "priority1 ''total 2.000'' = []"
    by (simp add: priority1_def g1 amount_eval)
  have q2: "priority2 ''total 2.000'' = []"
    by (simp add: priority2_def g2 amount_eval)
  have q3: "priority3 (is_colombian_bank None) ''total 2.000'' = []"
    by (simp add: priority3_def g3 amount_eval)
  have q4: "priority4 (is_colombian_bank None) ''total 2.000''
              = [\<lparr>amount = 2000, currency = UNKNOWN\<rparr>]"
    by (simp add: priority4_def g4 amount_eval is_colombian_bank_def)
  show ?thesis
    using cascade_fallback_gate [of "''COP 1.000 y 2.000''" None]
      cascade_fallback_gate [of "''total 2.000''" None]
    by (simp add: p1 p2 p3 q1 q2 q3 q4)
qed

section \<open>The explicit COP marker\<close>

lemma ic_C: "ic (\<lambda>x. x = CHR ''C'') CHR ''C''" by code_simp
lemma ic_O: "ic (\<lambda>x. x = CHR ''O'') CHR ''O''" by code_simp
lemma ic_P: "ic (\<lambda>x. x = CHR ''P'') CHR ''P''" by code_simp

lemmas class_eval = is_digit_def is_space_def is_sep_def code_def

lemma cop_match_here:
  "\<exists>rest. m cop_pattern (b, ''COP 51.558,00'' @ post, [])
     = (rev ''COP 51.558,00'' @ b, post, [(1, ''51.558,00'')]) # rest"
  by (simp add: cop_pattern_def liti_def between_def Opt_def ic_C ic_O ic_P class_eval
        eval_nat_numeral
        bef_def aft_def grps_def consumed_def)

lemma cop_tail_free: "w \<in> lang cop_pattern \<Longrightarrow> CHR ''C'' \<notin> set (tl w)"
proof -
  assume w: "w \<in> lang cop_pattern"
  have a: "\<not> chars (liti ''OP'') CHR ''C''" by code_simp
  have b: "\<not> chars (Seq (Star space)
       (Grp 1 (Seq (between 1 3 digit)
              (Seq (Star (Seq (ch CHR ''.'') (times 3 digit)))
                   (Opt (Seq (ch CHR '','') (times 2 digit))))))) CHR ''C''" by code_simp
  have "cop_pattern = Seq (Seq (Chr (ic (\<lambda>x. x = CHR ''C''))) (liti ''OP'')) (Seq (Star space)
       (Grp 1 (Seq (between 1 3 digit)
              (Seq (Star (Seq (ch CHR ''.'') (times 3 digit)))
                   (Opt (Seq (ch CHR '','') (times 2 digit)))))))"
    by (simp add: cop_pattern_def liti_def)
  with w have "w \<in> lang (Seq (Seq (Chr (ic (\<lambda>x. x = CHR ''C''))) (liti ''OP'')) (Seq (Star space)
       (Grp 1 (Seq (between 1 3 digit)
              (Seq (Star (Seq (ch CHR ''.'') (times 3 digit)))
                   (Opt (Seq (ch CHR '','') (times 2 digit))))))))" by simp
  then show ?thesis by (rule lang_tail_free [OF _ a b])
qed

lemma map_filter_memI: "x \<in> set xs \<Longrightarrow> f x = Some y \<Longrightarrow> y \<in> set (List.map_filter f xs)"
  by (induction xs) (auto split: option.splits)

lemma cop_findall_reach:
  "''51.558,00'' \<in> set (re_findall cop_pattern (pre @ ''COP 51.558,00'' @ post))"
proof -
  have here: "\<exists>st rest. m cop_pattern (b, CHR ''C'' # ''OP 51.558,00'' @ post, []) = st # rest
                    \<and> consumed b (bef st) = ''COP 51.558,00'' \<and> grps st = [(1, ''51.558,00'')]" for b
  proof -
    from cop_match_here [of b post] obtain rest where
      "m cop_pattern (b, ''COP 51.558,00'' @ post, [])
         = (rev ''COP 51.558,00'' @ b, post, [(1, ''51.558,00'')]) # rest" by blast
    then have "m cop_pattern (b, CHR ''C'' # ''OP 51.558,00'' @ post, [])
         = (rev ''COP 51.558,00'' @ b, post, [(1, ''51.558,00'')]) # rest
       \<and> consumed b (bef (rev ''COP 51.558,00'' @ b, post, [(1, ''51.558,00'')])) = ''COP 51.558,00''
       \<and> grps (rev ''COP 51.558,00'' @ b, post, [(1, ''51.558,00'')]) = [(1, ''51.558,00'')]"
      by (simp add: consumed_def bef_def grps_def)
    then show ?thesis by - (intro exI, assumption)
  qed
  have ng: "ngroups cop_pattern \<noteq> 0" by (simp add: cop_pattern_def)
  from re_findall_reach [of cop_pattern "CHR ''C''" "''OP 51.558,00'' @ post" "''COP 51.558,00''"
      "''51.558,00''" pre, OF here cop_tail_free ng]
  show ?thesis by simp
qed

lemma cop_candidate_51558:
  "cop_candidate ''51.558,00'' = Some \<lparr>amount = 51558, currency = COP\<rparr>"
  by (simp add: amount_eval)

lemma priority1_reach:
  "\<lparr>amount = 51558, currency = COP\<rparr> \<in> set (priority1 (pre @ ''COP 51.558,00'' @ post))"
  unfolding priority1_def
  by (rule map_filter_memI [where f = cop_candidate and x = "''51.558,00''"])
    (rule cop_findall_reach, rule cop_candidate_51558)

lemma extract_amounts_priority1:
  "x \<in> set (priority1 text) \<Longrightarrow> x \<in> set (extract_amounts text bs)"
  unfolding extract_amounts_eq by (cases "priority1 text") auto

lemma example_sentence_amounts:
  "extract_amounts ''Compraste COP 51.558,00 en EXITO SABANETA con T.Cred *9095 a las 20:33'' bs
       = [\<lparr>amount = 51558, currency = COP\<rparr>]"
proof -
  let ?t = "''Compraste COP 51.558,00 en EXITO SABANETA con T.Cred *9095 a las 20:33''"
  have f1: "re_findall cop_pattern ?t = [''51.558,00'']" by code_simp
  have f2: "re_findall usd_pattern ?t = []" by code_simp
  have f3: "re_findall dollar_sign_pattern ?t = []" by code_simp
  have p1: "priority1 ?t = [\<lparr>amount = 51558, currency = COP\<rparr>]"
    unfolding priority1_def f1 by (simp add: cop_candidate_51558)
  have p2: "priority2 ?t = []"
    unfolding priority2_def f2 by simp
  have p3: "priority3 c ?t = []" for c
    unfolding priority3_def f3 by simp
  show ?thesis
    unfolding extract_amounts_eq p1 p2 p3 by simp
qed

lemma marker_start_iff: "marker_start c \<longleftrightarrow> c \<in> set ''CcUu$''"
proof -
  have C: "is_upper_az CHR ''C''" and U: "is_upper_az CHR ''U''"
    by (simp_all add: is_upper_az_def code_def)
  have e: "code c = code x \<longleftrightarrow> c = x" for x
    by (auto dest: code_inj)
  have k: "code CHR ''C'' + 32 = code CHR ''c''" "code CHR ''U'' + 32 = code CHR ''u''"
    by (simp_all add: code_def)
  show ?thesis
    unfolding marker_start_def ic_literal_upper [OF C] ic_literal_upper [OF U] k e by auto
qed

lemma ic_U_iff: "ic (\<lambda>x. x = CHR ''U'') c \<longleftrightarrow> c = CHR ''U'' \<or> c = CHR ''u''"
proof -
  have U: "is_upper_az CHR ''U''" by (simp add: is_upper_az_def code_def)
  have e: "code c = code x \<longleftrightarrow> c = x" for x by (auto dest: code_inj)
  have k: "code CHR ''U'' + 32 = code CHR ''u''" by (simp add: code_def)
  show ?thesis unfolding ic_literal_upper [OF U] k e by simp
qed

lemma cop_findall_single:
  assumes "\<forall>c \<in> set (pre @ post). \<not> marker_start c"
  shows "re_findall cop_pattern (pre @ ''COP 51.558,00'' @ post) = [''51.558,00'']"
proof -
  have first: "w \<in> lang cop_pattern \<Longrightarrow> w \<noteq> [] \<and> ic (\<lambda>x. x = CHR ''C'') (hd w)" for w
    unfolding cop_pattern_def liti_def by (simp only: foldr.simps o_apply) (rule lang_first2)
  have "finditer_from cop_pattern [] (pre @ ''COP 51.558,00'' @ post)
          = [(''COP 51.558,00'', [(1, ''51.558,00'')])]"
    using assms
    by (intro finditer_single [where p = "ic (\<lambda>x. x = CHR ''C'')", OF first cop_match_here])
      (auto simp: marker_start_def)
  then show ?thesis by (simp add: re_findall_def cop_pattern_def group_def)
qed

lemma usd_findall_none:
  assumes "\<forall>c \<in> set (pre @ post). \<not> marker_start c"
  shows "re_findall usd_pattern (pre @ ''COP 51.558,00'' @ post) = []"
proof -
  have first: "w \<in> lang usd_pattern \<Longrightarrow> w \<noteq> [] \<and> ic (\<lambda>x. x = CHR ''U'') (hd w)" for w
    unfolding usd_pattern_def liti_def by (simp only: foldr.simps o_apply) (rule lang_first2)
  have "\<forall>c \<in> set (pre @ ''COP 51.558,00'' @ post). \<not> ic (\<lambda>x. x = CHR ''U'') c"
    using assms by (auto simp: marker_start_def ic_U_iff)
  from finditer_none [where p = "ic (\<lambda>x. x = CHR ''U'')", OF first this]
  show ?thesis by (simp add: re_findall_def)
qed

lemma dollar_findall_none:
  assumes "\<forall>c \<in> set (pre @ post). \<not> marker_start c"
  shows "re_findall dollar_sign_pattern (pre @ ''COP 51.558,00'' @ post) = []"
proof -
  have first: "w \<in> lang dollar_sign_pattern \<Longrightarrow> w \<noteq> [] \<and> hd w = CHR ''$''" for w
    unfolding dollar_sign_pattern_def by (rule lang_first1)
  have "\<forall>c \<in> set (pre @ ''COP 51.558,00'' @ post). \<not> c = CHR ''$''"
    using assms by (auto simp: marker_start_def)
  from finditer_none [where p = "\<lambda>c. c = CHR ''$''", OF first this]
  show ?thesis by (simp add: re_findall_def)
qed

lemma cop_marker_alone:
  assumes "\<forall>c \<in> set (pre @ post). \<not> marker_start c"
  shows "extract_amounts (pre @ ''COP 51.558,00'' @ post) bs
           = [\<lparr>amount = 51558, currency = COP\<rparr>]"
  unfolding extract_amounts_eq priority1_def priority2_def priority3_def
    cop_findall_single [OF assms] usd_findall_none [OF assms] dollar_findall_none [OF assms]
  by (simp add: cop_candidate_51558)

text \<open>
  Claim C5, as amended. For every text that contains \<open>COP 51.558,00\<close>, whatever comes
  before and after it and whatever banks were detected, the cascade yields a candidate with
  value 51558.00 and currency COP. It need not be the only one. It is the only one when the
  rest of the text has none of the characters with which a further marker would start, and
  for the sentence of the specification's end-to-end example.
\<close>

theorem cop_marker_found:
  "\<lparr>amount = 51558, currency = COP\<rparr>
     \<in> set (extract_amounts (pre @ ''COP 51.558,00'' @ post) bs)
   \<and> ((\<forall>c \<in> set (pre @ post). \<not> marker_start c) \<longrightarrow>
        extract_amounts (pre @ ''COP 51.558,00'' @ post) bs
          = [\<lparr>amount = 51558, currency = COP\<rparr>])
   \<and> extract_amounts ''Compraste COP 51.558,00 en EXITO SABANETA con T.Cred *9095 a las 20:33'' bs
       = [\<lparr>amount = 51558, currency = COP\<rparr>]"
  using extract_amounts_priority1 [OF priority1_reach] cop_marker_alone example_sentence_amounts
  by blast

theorem cop_marker_found_witness:
  "\<lparr>amount = 51558, currency = COP\<rparr>
     \<in> set (extract_amounts (''Pago de '' @ ''COP 51.558,00'' @ '' hoy'') None)
   \<and> list_all (\<lambda>c. \<not> marker_start c) (''Pago de '' @ '' hoy'')
   \<and> extract_amounts (''Pago de '' @ ''COP 51.558,00'' @ '' hoy'') None
       = [\<lparr>amount = 51558, currency = COP\<rparr>]"
proof -
  have h: "\<forall>c \<in> set (''Pago de '' @ '' hoy''). \<not> marker_start c"
    by (simp add: marker_start_iff)
  show ?thesis
    using cop_marker_found [of "''Pago de ''" "'' hoy''" None] h
    unfolding list_all_iff by blast
qed

text \<open>
  Claim C5 as stated fails: a text can contain \<open>COP 51.558,00\<close> and a further amount, and
  then the cascade yields more than one candidate.
\<close>

theorem cop_marker_not_alone:
  "py_in ''COP 51.558,00'' ''COP 51.558,00 mas USD 5.00''
   \<and> extract_amounts ''COP 51.558,00 mas USD 5.00'' None
       = [\<lparr>amount = 51558, currency = COP\<rparr>, \<lparr>amount = 5, currency = USD\<rparr>]"
proof -
  let ?t = "''COP 51.558,00 mas USD 5.00''"
  have f0: "py_in ''COP 51.558,00'' ?t" by code_simp
  have f1: "re_findall cop_pattern ?t = [''51.558,00'']" by code_simp
  have f2: "re_findall usd_pattern ?t = [''5.00'']" by code_simp
  have f3: "re_findall dollar_sign_pattern ?t = []" by code_simp
  have "extract_amounts ?t None
       = [\<lparr>amount = 51558, currency = COP\<rparr>, \<lparr>amount = 5, currency = USD\<rparr>]"
    by (simp add: extract_amounts_eq priority1_def priority2_def priority3_def f1 f2 f3
          amount_eval)
  with f0 show ?thesis by simp
qed

section \<open>The dollar sign under a Colombian bank\<close>

lemma dollar_match_here:
  assumes "\<not> numeral_continues post"
  shows "\<exists>rest. m dollar_sign_pattern (b, ''$ 200.000'' @ post, [])
     = (rev ''$ 200.000'' @ b, post, [(1, ''200.000'')]) # rest"
proof (cases post)
  case Nil
  then show ?thesis
    by (simp add: dollar_sign_pattern_def between_def Opt_def class_eval eval_nat_numeral
        bef_def aft_def grps_def consumed_def)
next
  case p1: (Cons x xs)
  show ?thesis
  proof (cases xs)
    case Nil
    then show ?thesis using p1
      by (simp add: dollar_sign_pattern_def between_def Opt_def class_eval eval_nat_numeral
          bef_def aft_def grps_def consumed_def)
  next
    case p2: (Cons y ys)
    show ?thesis
    proof (cases ys)
      case Nil
      then show ?thesis using p1 p2
        by (simp add: dollar_sign_pattern_def between_def Opt_def class_eval eval_nat_numeral
            bef_def aft_def grps_def consumed_def)
    next
      case p3: (Cons z zs)
      have "\<not> (is_sep x \<and> is_digit y \<and> is_digit z)"
        using assms p1 p2 p3 by (simp add: numeral_continues_def)
      then show ?thesis using p1 p2 p3
        by (simp add: dollar_sign_pattern_def between_def Opt_def eval_nat_numeral
            bef_def aft_def grps_def consumed_def is_digit_def [of "CHR ''0''"]
            is_digit_def [of "CHR ''2''"] is_space_def [of "CHR '' ''"] is_space_def [of "CHR ''2''"]
            is_sep_def [of "CHR ''.''"] is_sep_def [of "CHR ''0''"] code_def)
    qed
  qed
qed

lemma lang_tail_free1:
  assumes "w \<in> lang (Seq (Chr p) r2)" and "\<not> chars r2 c"
  shows "c \<notin> set (tl w)"
proof -
  from assms(1) obtain x v where w: "w = [x] @ v" "v \<in> lang r2"
    by auto
  then have "tl w = v" by simp
  then show ?thesis using w(2) assms(2) lang_chars by fastforce
qed

lemma dollar_tail_free: "w \<in> lang dollar_sign_pattern \<Longrightarrow> CHR ''$'' \<notin> set (tl w)"
proof -
  assume w: "w \<in> lang dollar_sign_pattern"
  have b: "\<not> chars (Seq (Star space)
       (Grp 1 (Seq (between 1 3 digit)
              (Seq (Star (Seq (Chr is_sep) (times 3 digit)))
                   (Opt (Seq (Chr is_sep) (times 2 digit))))))) CHR ''$''" by code_simp
  from w show ?thesis unfolding dollar_sign_pattern_def by (rule lang_tail_free1 [OF _ b])
qed

lemma dollar_findall_reach:
  assumes "\<not> numeral_continues post"
  shows "''200.000'' \<in> set (re_findall dollar_sign_pattern (pre @ ''$ 200.000'' @ post))"
proof -
  have here: "\<exists>st rest. m dollar_sign_pattern (b, CHR ''$'' # '' 200.000'' @ post, []) = st # rest
                    \<and> consumed b (bef st) = ''$ 200.000'' \<and> grps st = [(1, ''200.000'')]" for b
  proof -
    from dollar_match_here [OF assms, of b] obtain rest where
      "m dollar_sign_pattern (b, ''$ 200.000'' @ post, [])
         = (rev ''$ 200.000'' @ b, post, [(1, ''200.000'')]) # rest" by blast
    then have "m dollar_sign_pattern (b, CHR ''$'' # '' 200.000'' @ post, [])
         = (rev ''$ 200.000'' @ b, post, [(1, ''200.000'')]) # rest
       \<and> consumed b (bef (rev ''$ 200.000'' @ b, post, [(1, ''200.000'')])) = ''$ 200.000''
       \<and> grps (rev ''$ 200.000'' @ b, post, [(1, ''200.000'')]) = [(1, ''200.000'')]"
      by (simp add: consumed_def bef_def grps_def)
    then show ?thesis by - (intro exI, assumption)
  qed
  have ng: "ngroups dollar_sign_pattern \<noteq> 0" by (simp add: dollar_sign_pattern_def)
  from re_findall_reach [of dollar_sign_pattern "CHR ''$''" "'' 200.000'' @ post" "''$ 200.000''"
      "''200.000''" pre, OF here dollar_tail_free ng]
  show ?thesis by simp
qed

lemma dollar_candidate_200000:
  "dollar_candidate True ''200.000'' = Some \<lparr>amount = 200000, currency = COP\<rparr>"
  by (simp add: amount_eval)

lemma extract_amounts_priority3:
  "x \<in> set (priority3 (is_colombian_bank bs) text) \<Longrightarrow> x \<in> set (extract_amounts text bs)"
  unfolding extract_amounts_eq
  by (cases "priority1 text @ priority2 text @ priority3 (is_colombian_bank bs) text = []") auto

lemma priority3_reach:
  assumes "\<not> numeral_continues post"
  shows "\<lparr>amount = 200000, currency = COP\<rparr>
           \<in> set (priority3 True (pre @ ''$ 200.000'' @ post))"
  unfolding priority3_def
  by (rule map_filter_memI [where f = "dollar_candidate True" and x = "''200.000''"])
    (rule dollar_findall_reach [OF assms], rule dollar_candidate_200000)

lemma py_replace_remove: "py_replace c [] s = filter (\<lambda>x. x \<noteq> c) s"
  by (induction s) (auto simp: py_replace_def)

text \<open>
  Claim C2, as amended. Under a Colombian bank, a \<open>$\<close> numeral with periods and no comma
  whose last period-delimited segment has exactly three characters is read with every period
  removed, as thousands separators; otherwise it is handed to \<open>float\<close> as written, so that a
  single period is a decimal point and a numeral with several periods is not a number and is
  dropped. For every text that contains \<open>$ 200.000\<close> not continued by a separator and two
  digits, with a Colombian bank detected, the cascade yields a candidate with value 200000 and
  currency COP.
\<close>

theorem dollar_period_rule:
  "(CHR ''.'' \<in> set mt \<and> CHR '','' \<notin> set mt \<longrightarrow>
      dollar_candidate True mt =
        map_option (\<lambda>a. \<lparr>amount = a, currency = COP\<rparr>)
          (if length (last (py_split CHR ''.'' mt)) = 3
           then py_float (filter (\<lambda>c. c \<noteq> CHR ''.'') mt)
           else py_float mt))
   \<and> (is_colombian_bank bs \<and> \<not> numeral_continues post \<longrightarrow>
        \<lparr>amount = 200000, currency = COP\<rparr>
          \<in> set (extract_amounts (pre @ ''$ 200.000'' @ post) bs))"
proof (intro conjI impI)
  assume h: "CHR ''.'' \<in> set mt \<and> CHR '','' \<notin> set mt"
  then have "0 < py_count CHR ''.'' mt"
    by (auto simp: py_count_def filter_empty_conv)
  then show "dollar_candidate True mt =
        map_option (\<lambda>a. \<lparr>amount = a, currency = COP\<rparr>)
          (if length (last (py_split CHR ''.'' mt)) = 3
           then py_float (filter (\<lambda>c. c \<noteq> CHR ''.'') mt)
           else py_float mt)"
    using h by (simp add: dollar_candidate_def dollar_amount_str_def py_replace_remove
        split: option.splits)
next
  assume h: "is_colombian_bank bs \<and> \<not> numeral_continues post"
  then have "\<lparr>amount = 200000, currency = COP\<rparr>
      \<in> set (priority3 (is_colombian_bank bs) (pre @ ''$ 200.000'' @ post))"
    using priority3_reach [of post pre] by simp
  then show "\<lparr>amount = 200000, currency = COP\<rparr>
          \<in> set (extract_amounts (pre @ ''$ 200.000'' @ post) bs)"
    by (rule extract_amounts_priority3)
qed

lemma bancolombia_flag: "is_colombian_bank (Some [''Bancolombia''])"
  by code_simp

theorem dollar_period_rule_witness:
  "dollar_candidate True ''200.000'' = Some \<lparr>amount = 200000, currency = COP\<rparr>
   \<and> dollar_candidate True ''200.50'' = Some \<lparr>amount = 401 / 2, currency = COP\<rparr>
   \<and> dollar_candidate True ''1.000.50'' = None
   \<and> is_colombian_bank (Some [''Bancolombia''])
   \<and> \<not> numeral_continues '' en EXITO''
   \<and> \<lparr>amount = 200000, currency = COP\<rparr>
        \<in> set (extract_amounts (''Pagaste '' @ ''$ 200.000'' @ '' en EXITO'')
                 (Some [''Bancolombia'']))"
proof -
  have a: "CHR ''.'' \<in> set ''200.000'' \<and> CHR '','' \<notin> set ''200.000''" by simp
  have b: "CHR ''.'' \<in> set ''200.50'' \<and> CHR '','' \<notin> set ''200.50''" by simp
  have c: "CHR ''.'' \<in> set ''1.000.50'' \<and> CHR '','' \<notin> set ''1.000.50''" by simp
  have n: "\<not> numeral_continues '' en EXITO''"
    by (simp add: numeral_continues_def is_sep_def)
  have va: "(if length (last (py_split CHR ''.'' ''200.000'')) = 3
           then py_float (filter (\<lambda>c. c \<noteq> CHR ''.'') ''200.000'')
           else py_float ''200.000'') = Some 200000"
    by (simp add: amount_eval)
  have vb: "(if length (last (py_split CHR ''.'' ''200.50'')) = 3
           then py_float (filter (\<lambda>c. c \<noteq> CHR ''.'') ''200.50'')
           else py_float ''200.50'') = Some (401 / 2)"
    by (simp add: amount_eval)
  have vc: "(if length (last (py_split CHR ''.'' ''1.000.50'')) = 3
           then py_float (filter (\<lambda>c. c \<noteq> CHR ''.'') ''1.000.50'')
           else py_float ''1.000.50'') = None"
    by (simp add: amount_eval)
  show ?thesis
    using dollar_period_rule [of "''200.000''" "Some [''Bancolombia'']" "'' en EXITO''" "''Pagaste ''"]
      dollar_period_rule [of "''200.50''" None "[]" "[]"]
      dollar_period_rule [of "''1.000.50''" None "[]" "[]"]
      a b c n bancolombia_flag va vb vc
    by simp
qed

text \<open>
  Claim C2 as stated fails: the text \<open>$ 200.000,50\<close> contains \<open>$ 200.000\<close>, a Colombian
  bank is detected, and the only candidate is 200000.5.
\<close>

theorem dollar_numeral_continued:
  "py_in ''$ 200.000'' ''$ 200.000,50''
   \<and> is_colombian_bank (Some [''Bancolombia''])
   \<and> extract_amounts ''$ 200.000,50'' (Some [''Bancolombia''])
       = [\<lparr>amount = 400001 / 2, currency = COP\<rparr>]"
proof -
  let ?t = "''$ 200.000,50''"
  have f0: "py_in ''$ 200.000'' ?t" by code_simp
  have f1: "re_findall cop_pattern ?t = []" by code_simp
  have f2: "re_findall usd_pattern ?t = []" by code_simp
  have f3: "re_findall dollar_sign_pattern ?t = [''200.000,50'']" by code_simp
  have "extract_amounts ?t (Some [''Bancolombia''])
       = [\<lparr>amount = 400001 / 2, currency = COP\<rparr>]"
    by (simp add: extract_amounts_eq priority1_def priority2_def priority3_def f1 f2 f3
          amount_eval bancolombia_flag)
  with f0 bancolombia_flag show ?thesis by simp
qed

section \<open>The time extractor\<close>

text \<open>
  Claim C3. The claim says that the meridiem is the empty string when AM/PM is absent, so that
  a text with \<open>a las 20:33\<close> gives \<open>20:33\<close>. The first pattern has three groups, and
  when its third group takes no part in the match \<open>match.group(3)\<close> is \<open>None\<close>, which the
  f-string renders as the word \<open>None\<close>: the extractor returns \<open>20:33 None\<close>, on the
  short text and on the sentence of the specification's end-to-end example.
\<close>

theorem extract_time_renders_None:
  "extract_time ''a las 20:33'' = Some ''20:33 None''
   \<and> extract_time ''Compraste COP 51.558,00 en EXITO SABANETA con T.Cred *9095 a las 20:33''
       = Some ''20:33 None''"
  by code_simp

section \<open>Account numbers\<close>

lemma lang_times_digit:
  "w \<in> lang (times n (Chr p)) \<Longrightarrow> length w = n \<and> (\<forall>c \<in> set w. p c)"
  by (induction n arbitrary: w) auto

lemma glang_times_Chr: "glang i (times n (Chr p)) = {}"
  by (induction n) simp_all

text \<open>
  Claim C8. For every text, every string the account-number extractor returns consists of
  exactly four digits, however many digits follow the mask or the label.
\<close>

theorem account_numbers_four_digits:
  assumes "s \<in> set (extract_account_numbers text)"
  shows "length s = 4 \<and> (\<forall>c \<in> set s. is_digit c)"
proof -
  from assms obtain r where r: "r \<in> set account_patterns" "s \<in> set (re_findall r text)"
    by (auto simp: extract_account_numbers_def findall_patterns_def)
  have "ngroups r \<noteq> 0 \<and> sets_group 1 r \<and> glang 1 r = lang (times 4 digit)"
    using r(1)
    by (auto simp: account_patterns_def at_least_def liti_def number_label_def Opt_def
          glang_times_Chr)
  with re_findall_group1 [OF r(2)] have "s \<in> lang (times 4 digit)" by simp
  then show ?thesis by (rule lang_times_digit)
qed

theorem account_numbers_four_digits_witness:
  "''1234'' \<in> set (extract_account_numbers ''Cuenta ****123456'')
   \<and> length ''1234'' = 4 \<and> list_all is_digit ''1234''"
proof -
  have h: "''1234'' \<in> set (extract_account_numbers ''Cuenta ****123456'')"
    by code_simp
  show ?thesis
    using account_numbers_four_digits [OF h] h by (simp add: list_all_iff)
qed

section \<open>The merchant extractor\<close>

lemma concat_singletons:
  "set ws \<subseteq> {[d] | d. p d} \<Longrightarrow> \<forall>c \<in> set (concat ws). p c"
  by (induction ws) auto

lemma lang_merchant_name:
  assumes "g \<in> glang 1 merchant_name"
  shows "\<exists>u v. g = u # v \<and> is_upper_az u \<and> (\<forall>c \<in> set v. is_upper_az c \<or> is_space c)"
proof -
  from assms obtain u d ws where g: "g = [u] @ [d] @ concat ws" and u: "is_upper_az u"
    and d: "is_upper_az d \<or> is_space d"
    and ws: "set ws \<subseteq> {[d] | d. is_upper_az d \<or> is_space d}"
    by (auto simp: merchant_name_def LazyPlus_def)
  from concat_singletons [OF ws] have "\<forall>c \<in> set (concat ws). is_upper_az c \<or> is_space c" .
  with d have "\<forall>c \<in> set (d # concat ws). is_upper_az c \<or> is_space c" by simp
  with g u show ?thesis by simp
qed

lemma upper_not_space: "is_upper_az c \<Longrightarrow> \<not> is_space c"
  by (auto simp: is_upper_az_def is_space_def)

lemma dropWhile_snoc_keep:
  assumes "\<not> P u"
  shows "\<exists>zs. dropWhile P (xs @ [u]) = zs @ [u] \<and> set zs \<subseteq> set xs"
proof (cases "\<forall>x \<in> set xs. P x")
  case True
  then have "dropWhile P (xs @ [u]) = [] @ [u] \<and> set [] \<subseteq> set xs"
    using assms by (simp add: dropWhile_append)
  then show ?thesis by - (intro exI, assumption)
next
  case False
  have "set (dropWhile P xs) \<subseteq> set xs"
    using set_dropWhileD by fastforce
  then have "dropWhile P (xs @ [u]) = dropWhile P xs @ [u] \<and> set (dropWhile P xs) \<subseteq> set xs"
    using False by (simp add: dropWhile_append)
  then show ?thesis by - (intro exI, assumption)
qed

lemma py_strip_Cons:
  assumes "\<not> is_space u"
  shows "\<exists>v'. py_strip (u # v) = u # v' \<and> set v' \<subseteq> set v"
proof -
  from dropWhile_snoc_keep [where P = is_space and u = u and xs = "rev v", OF assms] obtain zs where
    zs: "dropWhile is_space (rev v @ [u]) = zs @ [u]" "set zs \<subseteq> set v" by auto
  have "py_strip (u # v) = u # rev zs \<and> set (rev zs) \<subseteq> set v"
    using assms zs by (simp add: py_strip_def)
  then show ?thesis by - (intro exI, assumption)
qed

lemma merchant_clean:
  assumes "g \<in> glang 1 merchant_name"
  shows "\<exists>u r. re_sub (Plus space) '' '' (py_strip g) = u # r \<and> is_upper_az u
           \<and> (\<forall>c \<in> set r. is_upper_az c \<or> c = CHR '' '') \<and> \<not> py_in ''  '' (u # r)"
proof -
  from lang_merchant_name [OF assms] obtain u v where g: "g = u # v" and u: "is_upper_az u"
    and v: "\<forall>c \<in> set v. is_upper_az c \<or> is_space c" by blast
  have nu: "\<not> is_space u" using u by (rule upper_not_space)
  from py_strip_Cons [where u = u and v = v, OF nu] obtain v' where v': "py_strip (u # v) = u # v'"
    "set v' \<subseteq> set v" by blast
  let ?r = "sub_from (Plus space) '' '' [u] v'"
  have eq: "re_sub (Plus space) '' '' (py_strip g) = u # ?r"
    by (simp add: re_sub_def g v' sub_space_not [OF nu])
  have col: "collapsed v' ?r" by (rule sub_space_collapsed)
  have chars: "\<forall>c \<in> set ?r. is_upper_az c \<or> c = CHR '' ''"
    using col v v'(2) by (auto simp: collapsed_def)
  have "u \<noteq> CHR '' ''" using nu is_space_blank by auto
  then have nb: "\<not> py_in ''  '' (u # ?r)"
    using col by (simp add: py_in_two_blanks_Cons collapsed_def del: py_in.simps)
  from eq u chars nb show ?thesis by blast
qed

lemma merchant_patterns_shape:
  "pattern \<in> set merchant_patterns \<Longrightarrow>
     \<exists>r1 r2 r3. pattern = Seq r1 (Seq r2 (Seq merchant_name r3))
        \<and> glang 1 r1 = {} \<and> glang 1 r2 = {} \<and> glang 1 r3 = {}"
  by (auto simp: merchant_patterns_def lit_def Plus_def)

lemma merchant_patterns_group:
  assumes "pattern \<in> set merchant_patterns"
  shows "sets_group 1 pattern \<and> glang 1 pattern = glang 1 merchant_name"
proof -
  have "sets_group 1 merchant_name" by (simp add: merchant_name_def)
  with merchant_patterns_shape [OF assms] show ?thesis by auto
qed

lemma extract_merchant_loop_Some:
  "extract_merchant_loop patterns text = Some mn \<Longrightarrow>
     \<exists>pattern \<in> set patterns. \<exists>mt. re_search pattern text = Some mt
        \<and> mn = re_sub (Plus space) '' '' (py_strip (group_str mt 1))"
  by (induction patterns) (auto simp: Let_def split: option.splits)

lemma extract_merchant_loop_None:
  "\<forall>pattern \<in> set patterns. re_search pattern text = None \<Longrightarrow>
     extract_merchant_loop patterns text = None"
  by (induction patterns) auto

lemma lang_Seq_right:
  assumes "w \<in> lang (Seq r1 r2)" and "\<And>v. v \<in> lang r2 \<Longrightarrow> \<exists>c \<in> set v. P c"
  shows "\<exists>c \<in> set w. P c"
  using assms by fastforce

lemma lang_Seq_left:
  assumes "w \<in> lang (Seq r1 r2)" and "\<And>v. v \<in> lang r1 \<Longrightarrow> \<exists>c \<in> set v. P c"
  shows "\<exists>c \<in> set w. P c"
  using assms by fastforce

lemma lang_merchant_name_upper:
  "w \<in> lang merchant_name \<Longrightarrow> \<exists>c \<in> set w. is_upper_az c"
  unfolding merchant_name_def lang.simps(7)
  by (erule lang_Seq_left) auto

lemma merchant_patterns_upper:
  assumes "pattern \<in> set merchant_patterns" and "w \<in> lang pattern"
  shows "\<exists>c \<in> set w. is_upper_az c"
proof -
  from merchant_patterns_shape [OF assms(1)] obtain r1 r2 r3 where
    "pattern = Seq r1 (Seq r2 (Seq merchant_name r3))" by blast
  with assms(2) obtain u1 u2 u3 u4 where w: "w = u1 @ u2 @ u3 @ u4" "u3 \<in> lang merchant_name"
    by auto
  from lang_merchant_name_upper [OF w(2)] show ?thesis using w(1) by auto
qed

text \<open>
  Claim C10. Whenever the merchant extractor returns a value, the value is not empty, begins
  with an uppercase ASCII letter, consists of uppercase ASCII letters and blanks only, and has
  no two blanks in a row. A text without an uppercase ASCII letter, such as \<open>at starbucks\<close>,
  has no merchant.
\<close>

theorem merchant_is_uppercase:
  "(extract_merchant text = Some mn \<longrightarrow>
      mn \<noteq> [] \<and> is_upper_az (hd mn)
      \<and> (\<forall>c \<in> set mn. is_upper_az c \<or> c = CHR '' '') \<and> \<not> py_in ''  '' mn)
   \<and> ((\<forall>c \<in> set text. \<not> is_upper_az c) \<longrightarrow> extract_merchant text = None)
   \<and> extract_merchant ''at starbucks'' = None"
proof (intro conjI impI)
  assume "extract_merchant text = Some mn"
  then obtain pattern mt where p: "pattern \<in> set merchant_patterns"
    "re_search pattern text = Some mt"
    "mn = re_sub (Plus space) '' '' (py_strip (group_str mt 1))"
    unfolding extract_merchant_def using extract_merchant_loop_Some by blast
  from merchant_patterns_group [OF p(1)] re_search_group1 [OF p(2)]
  have "group_str mt 1 \<in> glang 1 merchant_name" by auto
  from merchant_clean [OF this] obtain u r where
    r: "mn = u # r" "is_upper_az u" "\<forall>c \<in> set r. is_upper_az c \<or> c = CHR '' ''"
    "\<not> py_in ''  '' (u # r)" unfolding p(3) by blast
  show "mn \<noteq> []" using r(1) by simp
  show "is_upper_az (hd mn)" using r(1,2) by simp
  show "\<forall>c \<in> set mn. is_upper_az c \<or> c = CHR '' ''" using r(1,2,3) by simp
  show "\<not> py_in ''  '' mn" using r(1,4) by simp
next
  assume low: "\<forall>c \<in> set text. \<not> is_upper_az c"
  have "re_search pattern text = None" if p: "pattern \<in> set merchant_patterns" for pattern
  proof (cases "re_search pattern text")
    case None
    then show ?thesis .
  next
    case (Some mt)
    from merchant_patterns_group [OF p] re_search_group1 [OF Some]
    obtain w where w: "w \<in> lang pattern" "set w \<subseteq> set text" by auto
    from merchant_patterns_upper [OF p w(1)] w(2) low show ?thesis by auto
  qed
  then show "extract_merchant text = None"
    unfolding extract_merchant_def by (intro extract_merchant_loop_None) simp
next
  show "extract_merchant ''at starbucks'' = None" by code_simp
qed

theorem merchant_is_uppercase_witness:
  "extract_merchant ''Compraste en EXITO  SABANETA con T.Cred'' = Some ''EXITO SABANETA''
   \<and> is_upper_az (hd ''EXITO SABANETA'')
   \<and> list_all (\<lambda>c. is_upper_az c \<or> c = CHR '' '') ''EXITO SABANETA''
   \<and> \<not> py_in ''  '' ''EXITO SABANETA''
   \<and> list_all (\<lambda>c. \<not> is_upper_az c) ''pago at starbucks''
   \<and> extract_merchant ''pago at starbucks'' = None"
proof -
  have h: "extract_merchant ''Compraste en EXITO  SABANETA con T.Cred'' = Some ''EXITO SABANETA''"
    by code_simp
  have l: "\<forall>c \<in> set ''pago at starbucks''. \<not> is_upper_az c"
    by (simp add: is_upper_az_def code_def)
  have n: "extract_merchant ''pago at starbucks'' = None"
    using merchant_is_uppercase [of "''pago at starbucks''" "[]"] l by blast
  have u: "is_upper_az (hd ''EXITO SABANETA'')
     \<and> (\<forall>c \<in> set ''EXITO SABANETA''. is_upper_az c \<or> c = CHR '' '')
     \<and> \<not> py_in ''  '' ''EXITO SABANETA''"
    using merchant_is_uppercase [of "''Compraste en EXITO  SABANETA con T.Cred''"
        "''EXITO SABANETA''"] h by blast
  show ?thesis
    using h l n u unfolding list_all_iff by blast
qed

section \<open>Transaction types\<close>

text \<open>
  Claim C9. The classification tests whether a keyword occurs anywhere in the lower-cased
  text, not whether it is a word of it: every text whose lower case contains \<open>atm\<close> and none
  of the purchase and wire-transfer keywords is a \<open>WITHDRAWAL\<close>, also when \<open>atm\<close> lies
  inside a longer word such as \<open>atmosphere\<close>.
\<close>

theorem atm_substring_withdrawal:
  assumes "py_in ''atm'' (py_lower text)"
    and "\<not> any_keyword [''compraste'', ''compra'', ''purchase''] (py_lower text)"
    and "\<not> any_keyword [''transferiste'', ''transferencia'', ''wire transfer'', ''wire'']
            (py_lower text)"
  shows "detect_transaction_type text = ''WITHDRAWAL''"
  using assms by (simp add: detect_transaction_type_def Let_def any_keyword_def)

theorem atm_substring_withdrawal_witness:
  "py_in ''atm'' (py_lower ''The atmosphere was calm'')
   \<and> detect_transaction_type ''The atmosphere was calm'' = ''WITHDRAWAL''"
proof -
  have h1: "py_in ''atm'' (py_lower ''The atmosphere was calm'')"
    by code_simp
  have h2: "\<not> any_keyword [''compraste'', ''compra'', ''purchase'']
              (py_lower ''The atmosphere was calm'')"
    by code_simp
  have h3: "\<not> any_keyword [''transferiste'', ''transferencia'', ''wire transfer'', ''wire'']
              (py_lower ''The atmosphere was calm'')"
    by code_simp
  show ?thesis
    using atm_substring_withdrawal [OF h1 h2 h3] h1 by simp
qed

section \<open>The regional bank flag\<close>

text \<open>
  Claim C6. For every list of detected bank names the flag is true exactly when some name,
  lower-cased, is an entry of the registry of Colombian banks. A name that only contains an
  entry (\<open>Bancolombia SA\<close>) or differs from it otherwise (\<open>Banco de Bogota\<close> without the
  accent) does not set it; \<open>BANCOLOMBIA\<close>, whose lower case is an entry, does.
\<close>

theorem regional_flag_iff:
  "(is_colombian_bank (Some bs) \<longleftrightarrow> (\<exists>b \<in> set bs. py_lower b \<in> COLOMBIAN_BANKS))
   \<and> \<not> is_colombian_bank None
   \<and> \<not> is_colombian_bank (Some [''Bancolombia SA''])
   \<and> \<not> is_colombian_bank (Some [''Banco de Bogota''])
   \<and> is_colombian_bank (Some [''BANCOLOMBIA''])"
proof -
  have a: "is_colombian_bank (Some bs) \<longleftrightarrow> (\<exists>b \<in> set bs. py_lower b \<in> COLOMBIAN_BANKS)"
    by (auto simp: is_colombian_bank_def list_ex_iff)
  have b: "\<not> is_colombian_bank None"
    by (simp add: is_colombian_bank_def)
  have c: "\<not> is_colombian_bank (Some [''Bancolombia SA''])"
    by code_simp
  have d: "\<not> is_colombian_bank (Some [''Banco de Bogota''])"
    by code_simp
  have e: "is_colombian_bank (Some [''BANCOLOMBIA''])"
    by code_simp
  show ?thesis
    using a b c d e by blast
qed

theorem regional_flag_iff_witness:
  "py_lower ''Davivienda'' \<in> COLOMBIAN_BANKS
   \<and> is_colombian_bank (Some [''Chase'', ''Davivienda''])"
proof -
  have h: "py_lower ''Davivienda'' \<in> COLOMBIAN_BANKS"
    by code_simp
  show ?thesis
    using regional_flag_iff [of "[''Chase'', ''Davivienda'']"] h by simp
qed

section \<open>The validator\<close>

lemma validate_errors_valid:
  "errors (validate_transaction tx)
     = (if amounts tx = [] then [''No monetary amounts detected''] else [])
   \<and> is_valid (validate_transaction tx) = (amounts tx \<noteq> [])"
  by (cases "amounts tx = []"; cases "dates tx = []"; cases "transaction_type tx = ''UNKNOWN''";
      cases "reference_numbers tx = []"; cases "5 < length (amounts tx)";
      simp add: validate_transaction_def Let_def)

text \<open>
  Claim C4. For every transaction record the validator's \<open>is_valid\<close> is false exactly when
  its \<open>errors\<close> are non-empty, and that is exactly when the record has no amounts; the message
  \<open>No monetary amounts detected\<close> is then among the errors. A record with an amount is valid,
  whatever warnings it gets.
\<close>

theorem validate_is_valid_iff:
  "(is_valid (validate_transaction tx) = False \<longleftrightarrow> errors (validate_transaction tx) \<noteq> [])
   \<and> (errors (validate_transaction tx) \<noteq> [] \<longleftrightarrow> amounts tx = [])
   \<and> (amounts tx = [] \<longrightarrow>
        ''No monetary amounts detected'' \<in> set (errors (validate_transaction tx)))
   \<and> (amounts tx \<noteq> [] \<longrightarrow> is_valid (validate_transaction tx))"
  by (simp add: validate_errors_valid)

theorem validate_is_valid_iff_witness:
  "amounts empty_transaction = []
   \<and> ''No monetary amounts detected'' \<in> set (errors (validate_transaction empty_transaction))
   \<and> \<not> is_valid (validate_transaction empty_transaction)
   \<and> amounts (empty_transaction\<lparr>amounts := replicate 6 \<lparr>amount = 1, currency = USD\<rparr>\<rparr>) \<noteq> []
   \<and> is_valid (validate_transaction
        (empty_transaction\<lparr>amounts := replicate 6 \<lparr>amount = 1, currency = USD\<rparr>\<rparr>))
   \<and> length (warnings (validate_transaction
        (empty_transaction\<lparr>amounts := replicate 6 \<lparr>amount = 1, currency = USD\<rparr>\<rparr>))) = 4"
proof -
  have e: "amounts empty_transaction = []"
    by (simp add: empty_transaction_def)
  have n: "amounts (empty_transaction\<lparr>amounts := replicate 6 \<lparr>amount = 1, currency = USD\<rparr>\<rparr>) \<noteq> []"
    by (simp add: numeral_eq_Suc)
  have w: "length (warnings (validate_transaction
        (empty_transaction\<lparr>amounts := replicate 6 \<lparr>amount = 1, currency = USD\<rparr>\<rparr>))) = 4"
    by (simp add: validate_transaction_def empty_transaction_def Let_def)
  show ?thesis
    using validate_is_valid_iff [of empty_transaction]
      validate_is_valid_iff
        [of "empty_transaction\<lparr>amounts := replicate 6 \<lparr>amount = 1, currency = USD\<rparr>\<rparr>"]
      e n w
    by blast
qed

section \<open>The pipeline and the order of the banks\<close>

lemma is_colombian_bank_Some:
  "is_colombian_bank (Some bs) \<longleftrightarrow> (\<exists>b \<in> set bs. py_lower b \<in> COLOMBIAN_BANKS)"
  by (auto simp: is_colombian_bank_def list_ex_iff)

lemma extract_amounts_banks_set:
  assumes "set xs = set ys"
  shows "extract_amounts text (Some xs) = extract_amounts text (Some ys)"
proof -
  have "is_colombian_bank (Some xs) = is_colombian_bank (Some ys)"
    using assms by (simp add: is_colombian_bank_Some)
  then show ?thesis by (simp add: extract_amounts_eq)
qed

lemma banks_run_pipeline:
  "banks (fst (run_pipeline set_order data))
     = set_order (bank_candidates (effective_annotations data))"
  by (simp add: run_pipeline_def parse_transaction_def Let_def extract_bank_names_def)

lemma parse_transaction_banks_set:
  assumes "set (o1 (bank_candidates (effective_annotations data)))
             = set (o2 (bank_candidates (effective_annotations data)))"
  shows "(parse_transaction o1 data)\<lparr>banks := []\<rparr> = (parse_transaction o2 data)\<lparr>banks := []\<rparr>"
  using extract_amounts_banks_set [OF assms]
  by (simp add: parse_transaction_def Let_def extract_bank_names_def)

lemma validate_ignores_banks:
  assumes "a\<lparr>banks := []\<rparr> = b\<lparr>banks := []\<rparr>"
  shows "validate_transaction a = validate_transaction b"
proof -
  have "amounts (a\<lparr>banks := []\<rparr>) = amounts (b\<lparr>banks := []\<rparr>)"
    "dates (a\<lparr>banks := []\<rparr>) = dates (b\<lparr>banks := []\<rparr>)"
    "transaction_type (a\<lparr>banks := []\<rparr>) = transaction_type (b\<lparr>banks := []\<rparr>)"
    "reference_numbers (a\<lparr>banks := []\<rparr>) = reference_numbers (b\<lparr>banks := []\<rparr>)"
    using assms by simp_all
  then have eqs: "amounts a = amounts b" "dates a = dates b"
    "transaction_type a = transaction_type b"
    "reference_numbers a = reference_numbers b" by simp_all
  show ?thesis unfolding validate_transaction_def eqs by (rule refl)
qed

lemma distinct_same_set_short:
  assumes "distinct xs" and "distinct ys" and "set xs = set ys" and "length xs \<le> 1"
  shows "xs = ys"
proof -
  have "length ys = length xs"
    using assms(1,2,3) by (metis distinct_card)
  then show ?thesis using assms(3,4)
    by (cases xs; cases ys) auto
qed

text \<open>
  Claim C7, as amended. Two runs on the same document, each with its own iteration order of
  the set of bank names, give the same validation and the same transaction except for the
  order of \<open>banks\<close>: the two lists hold the same names, each once. When at most one distinct
  name is detected the two outputs are equal.
\<close>

theorem pipeline_same_up_to_bank_order:
  assumes "set_order_ok o1 (bank_candidates (effective_annotations data))"
    and "set_order_ok o2 (bank_candidates (effective_annotations data))"
  shows "snd (run_pipeline o1 data) = snd (run_pipeline o2 data)
     \<and> (fst (run_pipeline o1 data))\<lparr>banks := []\<rparr> = (fst (run_pipeline o2 data))\<lparr>banks := []\<rparr>
     \<and> set (banks (fst (run_pipeline o1 data))) = set (banks (fst (run_pipeline o2 data)))
     \<and> distinct (banks (fst (run_pipeline o1 data)))
     \<and> distinct (banks (fst (run_pipeline o2 data)))
     \<and> (length (remdups (bank_candidates (effective_annotations data))) \<le> 1 \<longrightarrow>
          run_pipeline o1 data = run_pipeline o2 data)"
proof -
  let ?c = "bank_candidates (effective_annotations data)"
  have s: "set (o1 ?c) = set (o2 ?c)" and d1: "distinct (o1 ?c)" and d2: "distinct (o2 ?c)"
    and s1: "set (o1 ?c) = set ?c"
    using assms by (simp_all add: set_order_ok_def)
  have tx: "(parse_transaction o1 data)\<lparr>banks := []\<rparr> = (parse_transaction o2 data)\<lparr>banks := []\<rparr>"
    using s by (rule parse_transaction_banks_set)
  have v: "validate_transaction (parse_transaction o1 data)
             = validate_transaction (parse_transaction o2 data)"
    using tx by (rule validate_ignores_banks)
  have one: "run_pipeline o1 data = run_pipeline o2 data"
    if short: "length (remdups ?c) \<le> 1"
  proof -
    have "length (o1 ?c) = length (remdups ?c)"
      using d1 s1 by (metis distinct_card length_remdups_card_conv)
    then have "o1 ?c = o2 ?c"
      using distinct_same_set_short [OF d1 d2 s] short by simp
    then have "parse_transaction o1 data = parse_transaction o2 data"
      by (simp add: parse_transaction_def Let_def extract_bank_names_def)
    then show ?thesis by (simp add: run_pipeline_def)
  qed
  show ?thesis
    using tx v s d1 d2 one by (simp add: run_pipeline_def Let_def banks_run_pipeline [unfolded run_pipeline_def Let_def, simplified])
qed

lemma two_banks_candidates:
  "bank_candidates (effective_annotations two_banks_document) = [''Bancolombia'', ''Davivienda'']"
  by code_simp

theorem pipeline_same_up_to_bank_order_witness:
  "set_order_ok remdups (bank_candidates (effective_annotations two_banks_document))
   \<and> set_order_ok (rev \<circ> remdups) (bank_candidates (effective_annotations two_banks_document))
   \<and> snd (run_pipeline remdups two_banks_document)
       = snd (run_pipeline (rev \<circ> remdups) two_banks_document)
   \<and> set (banks (fst (run_pipeline remdups two_banks_document)))
       = set (banks (fst (run_pipeline (rev \<circ> remdups) two_banks_document)))"
proof -
  have a: "set_order_ok remdups (bank_candidates (effective_annotations two_banks_document))"
    by (simp add: set_order_ok_def)
  have b: "set_order_ok (rev \<circ> remdups)
             (bank_candidates (effective_annotations two_banks_document))"
    by (simp add: set_order_ok_def)
  show ?thesis
    using pipeline_same_up_to_bank_order [OF a b] a b by simp
qed

text \<open>
  Claim C7 as stated fails: on a document that names two banks, two admissible iteration
  orders of the set give outputs that differ in \<open>banks\<close>.
\<close>

theorem pipeline_bank_order_differs:
  "set_order_ok remdups (bank_candidates (effective_annotations two_banks_document))
   \<and> set_order_ok (rev \<circ> remdups) (bank_candidates (effective_annotations two_banks_document))
   \<and> banks (fst (run_pipeline remdups two_banks_document)) = [''Bancolombia'', ''Davivienda'']
   \<and> banks (fst (run_pipeline (rev \<circ> remdups) two_banks_document))
       = [''Davivienda'', ''Bancolombia'']
   \<and> run_pipeline remdups two_banks_document
       \<noteq> run_pipeline (rev \<circ> remdups) two_banks_document"
proof -
  have a: "set_order_ok remdups (bank_candidates (effective_annotations two_banks_document))"
    by (simp add: set_order_ok_def)
  have b: "set_order_ok (rev \<circ> remdups)
             (bank_candidates (effective_annotations two_banks_document))"
    by (simp add: set_order_ok_def)
  have c: "banks (fst (run_pipeline remdups two_banks_document))
             = [''Bancolombia'', ''Davivienda'']"
    by (simp add: banks_run_pipeline two_banks_candidates)
  have d: "banks (fst (run_pipeline (rev \<circ> remdups) two_banks_document))
             = [''Davivienda'', ''Bancolombia'']"
    by (simp add: banks_run_pipeline two_banks_candidates)
  have "run_pipeline remdups two_banks_document
       \<noteq> run_pipeline (rev \<circ> remdups) two_banks_document"
  proof
    assume "run_pipeline remdups two_banks_document
       = run_pipeline (rev \<circ> remdups) two_banks_document"
    then have "banks (fst (run_pipeline remdups two_banks_document))
       = banks (fst (run_pipeline (rev \<circ> remdups) two_banks_document))" by simp
    then show False unfolding c d by simp
  qed
  with a b c d show ?thesis by simp
qed

end
